theory Spec2Isabelle
  imports Complex_Main "HOL-Library.AList"
begin

section \<open>Data model\<close>

text \<open>
  The program is TypeScript. Its \<open>number\<close> values are modelled as \<open>real\<close> (no rounding,
  no NaN), identifiers and counters as \<open>nat\<close>, \<open>T | null\<close> as \<open>T option\<close> and strings
  as \<open>string\<close>.

  \<open>OSMPoint\<close>, \<open>GeminiAnalysisResult\<close> and \<open>AnalyzedPoint\<close> are the interfaces of
  \<open>types.ts\<close>. The \<open>id\<close> of an analysed point is the template string built from the two
  coordinates of the sample; it is kept as that pair of numbers.
\<close>

record OSMPoint =
  lat :: real
  lon :: real
  speed :: "string option"
  wayId :: "nat option"

record GeminiAnalysisResult =
  speed_limit :: "real option"
  confidence :: real

record AnalyzedPoint =
  ap_id :: "real \<times> real"
  location :: OSMPoint
  osmSpeed :: "string option"
  detectedSpeed :: "real option"
  ap_confidence :: "real option"
  isDiscrepancy :: bool
  imageUrl :: string
  heading :: real
  ap_wayId :: "nat option"
  imageDate :: "string option"

section \<open>Strings\<close>

text \<open>
  The string operations the worker uses on the recorded speed tag and on error messages:
  \<open>toLowerCase\<close> (on the ASCII letters), \<open>includes\<close>, the match of the regular
  expression \<open>/(\d+)/\<close> (the leftmost maximal run of decimal digits) and \<open>parseInt\<close> of
  such a run in base 10.
\<close>

definition toLowerChar :: "char \<Rightarrow> char" where
  "toLowerChar c =
     (let n = (of_char c :: nat) in if 65 \<le> n \<and> n \<le> 90 then char_of (n + 32) else c)"

definition toLowerCase :: "string \<Rightarrow> string" where
  "toLowerCase s = map toLowerChar s"

fun startsWith :: "string \<Rightarrow> string \<Rightarrow> bool" where
  "startsWith s [] = True"
| "startsWith [] (c # cs) = False"
| "startsWith (d # ds) (c # cs) = (d = c \<and> startsWith ds cs)"

fun includes_str :: "string \<Rightarrow> string \<Rightarrow> bool" where
  "includes_str [] sub = (sub = [])"
| "includes_str (c # cs) sub = (startsWith (c # cs) sub \<or> includes_str cs sub)"

definition isDigit :: "char \<Rightarrow> bool" where
  "isDigit c = (let n = (of_char c :: nat) in 48 \<le> n \<and> n \<le> 57)"

definition matchDigits :: "string \<Rightarrow> string option" where
  "matchDigits s =
     (let r = dropWhile (\<lambda>c. \<not> isDigit c) s
      in if r = [] then None else Some (takeWhile isDigit r))"

definition parseInt :: "string \<Rightarrow> nat" where
  "parseInt ds = foldl (\<lambda>acc c. 10 * acc + (of_char c - 48)) 0 ds"

section \<open>Validation and classification of one detection (worker, lines 304-344)\<close>

text \<open>
  \<open>analyzeSpeedSign\<close> returns a \<open>GeminiAnalysisResult\<close> or \<open>null\<close>. With optional
  chaining, \<open>analysisResult?.speed_limit\<close> is \<open>undefined\<close> for a \<open>null\<close> result, which
  is not \<open>null\<close> and compares false with every bound; \<open>js_num\<close> keeps the three cases
  apart.
\<close>

datatype js_num = Undefined | Null | Num real

definition rawDetectedSpeed :: "GeminiAnalysisResult option \<Rightarrow> js_num" where
  "rawDetectedSpeed analysisResult =
     (case analysisResult of
        None \<Rightarrow> Undefined
      | Some r \<Rightarrow> (case speed_limit r of None \<Rightarrow> Null | Some v \<Rightarrow> Num v))"

definition resultConfidence :: "GeminiAnalysisResult option \<Rightarrow> real option" where
  "resultConfidence analysisResult =
     (case analysisResult of None \<Rightarrow> None | Some r \<Rightarrow> Some (confidence r))"

definition minSpeed :: "string \<Rightarrow> real" where
  "minSpeed country = (if country = ''USA'' then 5 else 10)"

definition maxSpeed :: "string \<Rightarrow> real" where
  "maxSpeed country = (if country = ''USA'' then 90 else 150)"

definition finalDetectedSpeed ::
  "string \<Rightarrow> real \<Rightarrow> GeminiAnalysisResult option \<Rightarrow> real option" where
  "finalDetectedSpeed country confidenceThreshold analysisResult =
     (let detectedSpeed0 = rawDetectedSpeed analysisResult;
          detectedSpeed =
            (case resultConfidence analysisResult of
               None \<Rightarrow> detectedSpeed0
             | Some c \<Rightarrow>
                 if detectedSpeed0 \<noteq> Null \<and> c < confidenceThreshold then Null
                 else detectedSpeed0)
      in case detectedSpeed of
           Num v \<Rightarrow> if v \<ge> minSpeed country \<and> v \<le> maxSpeed country then Some v else None
         | _ \<Rightarrow> None)"

definition mphFactor :: real where
  "mphFactor = 160934 / 100000"

definition osmSpeedInKmh :: "string \<Rightarrow> nat \<Rightarrow> real" where
  "osmSpeedInKmh tag osmSpeedValue =
     (if includes_str (toLowerCase tag) ''mph'' then real osmSpeedValue * mphFactor
      else real osmSpeedValue)"

definition detectedSpeedInKmh :: "string \<Rightarrow> real \<Rightarrow> real" where
  "detectedSpeedInKmh country d = (if country = ''USA'' then d * mphFactor else d)"

definition computeDiscrepancy :: "string \<Rightarrow> string option \<Rightarrow> real option \<Rightarrow> bool" where
  "computeDiscrepancy country pointSpeed finalDetected =
     (case (pointSpeed, finalDetected) of
        (Some tag, Some d) \<Rightarrow>
          (case matchDigits tag of
             Some m \<Rightarrow> \<bar>osmSpeedInKmh tag (parseInt m) - detectedSpeedInKmh country d\<bar> > 5
           | None \<Rightarrow> True)
      | (None, Some d) \<Rightarrow> True
      | (_, None) \<Rightarrow> False)"

section \<open>Path assembly (\<open>fetchStreetData\<close>, from the parsed response on)\<close>

text \<open>
  The Overpass request, its retries and the cache are outside the model: it starts at
  \<open>data.elements\<close>. An exception inside the body (a property read on \<open>undefined\<close>) is the
  value \<open>Inl TypeError\<close>.

  The objects \<open>nodes\<close> and \<open>ways\<close> are keyed by element id. They are association lists in
  insertion order (assigning to an existing key keeps its place); \<open>for (... in ways)\<close>
  enumerates the keys that are array indices (below \<open>2^32 - 1\<close>) in ascending order and
  then the others in insertion order.
\<close>

datatype error = TypeError

record OSMWay =
  way_id :: nat
  way_nodes :: "nat list"
  way_speed :: "string option"
  way_oneway :: string

datatype element =
    NodeElement nat real real
  | WayElement nat "nat list" "string option" "string option"
  | OtherElement

type_synonym 'a js_object = "(nat \<times> 'a) list"

definition objectKeys :: "'a js_object \<Rightarrow> nat list" where
  "objectKeys obj =
     sort (filter (\<lambda>k. k < 4294967295) (map fst obj))
       @ filter (\<lambda>k. \<not> k < 4294967295) (map fst obj)"

definition orNull :: "string option \<Rightarrow> string option" where
  "orNull t = (case t of None \<Rightarrow> None | Some s \<Rightarrow> if s = [] then None else Some s)"

definition orNo :: "string option \<Rightarrow> string" where
  "orNo t = (case t of None \<Rightarrow> ''no'' | Some s \<Rightarrow> if s = [] then ''no'' else s)"

definition parseElements ::
  "element list \<Rightarrow> (real \<times> real) js_object \<times> OSMWay js_object" where
  "parseElements elements =
     foldl (\<lambda>(nodes, ways) el.
        case el of
          NodeElement i la lo \<Rightarrow> (AList.update i (la, lo) nodes, ways)
        | WayElement i ns maxspeed oneway \<Rightarrow>
            (nodes,
             AList.update i
               \<lparr>way_id = i, way_nodes = ns, way_speed = orNull maxspeed,
                way_oneway = orNo oneway\<rparr> ways)
        | OtherElement \<Rightarrow> (nodes, ways))
       ([], []) elements"

definition firstNode :: "nat list \<Rightarrow> nat option" where
  "firstNode ns = (case ns of [] \<Rightarrow> None | n # _ \<Rightarrow> Some n)"

definition lastNode :: "nat list \<Rightarrow> nat option" where
  "lastNode ns = (if ns = [] then None else Some (last ns))"

definition pushWay :: "(nat \<rightharpoonup> nat list) \<Rightarrow> nat \<Rightarrow> nat \<Rightarrow> (nat \<rightharpoonup> nat list)" where
  "pushWay m nodeId wid =
     (case m nodeId of None \<Rightarrow> m(nodeId \<mapsto> [wid]) | Some ws \<Rightarrow> m(nodeId \<mapsto> ws @ [wid]))"

definition nodeToWayMap :: "OSMWay js_object \<Rightarrow> (nat \<rightharpoonup> nat list)" where
  "nodeToWayMap ways =
     foldl (\<lambda>m k.
        case map_of ways k of
          None \<Rightarrow> m
        | Some way \<Rightarrow>
            (case way_nodes way of
               [] \<Rightarrow> m
             | n # ns \<Rightarrow> pushWay (pushWay m n (way_id way)) (last (n # ns)) (way_id way)))
       Map.empty (objectKeys ways)"

definition connections :: "(nat \<rightharpoonup> nat list) \<Rightarrow> nat list \<Rightarrow> nat option \<Rightarrow> nat list" where
  "connections m usedWays tip =
     (case tip of
        None \<Rightarrow> []
      | Some t \<Rightarrow> (case m t of None \<Rightarrow> [] | Some ws \<Rightarrow> filter (\<lambda>w. w \<notin> set usedWays) ws))"

text \<open>
  The two \<open>while (true)\<close> loops that extend a chain at its tip. Each round marks one more
  way of \<open>ways\<close> as used, which bounds the number of rounds.
\<close>

function extendForward ::
  "OSMWay js_object \<Rightarrow> (nat \<rightharpoonup> nat list) \<Rightarrow> nat list \<Rightarrow> nat list \<Rightarrow> nat option
     \<Rightarrow> error + (nat list \<times> nat list)" where
  "extendForward ways m usedWays currentChain tip =
     (case connections m usedWays tip of
        [] \<Rightarrow> Inr (usedWays, currentChain)
      | nextWayId # _ \<Rightarrow>
          (case map_of ways nextWayId of
             None \<Rightarrow> Inl TypeError
           | Some nextWay \<Rightarrow>
               extendForward ways m (nextWayId # usedWays) (currentChain @ [nextWayId])
                 (if firstNode (way_nodes nextWay) = tip then lastNode (way_nodes nextWay)
                  else firstNode (way_nodes nextWay))))"
  by pat_completeness auto
termination
proof (relation "measure (\<lambda>(ways, m, usedWays, currentChain, tip).
    length (filter (\<lambda>k. k \<notin> set usedWays) (map fst ways)))", goal_cases)
  case 1
  show ?case by simp
next
  case (2 ways m usedWays currentChain tip nextWayId rest nextWay)
  have "nextWayId \<in> set (connections m usedWays tip)"
    using 2(1) by simp
  then have unused: "nextWayId \<notin> set usedWays"
    by (auto simp: connections_def split: option.splits)
  have "nextWayId \<in> set (map fst ways)"
    using 2(2) by (auto dest: map_of_SomeD intro: rev_image_eqI)
  with unused have mem: "nextWayId \<in> set (filter (\<lambda>k. k \<notin> set usedWays) (map fst ways))"
    by simp
  have eq: "filter (\<lambda>k. k \<notin> set (nextWayId # usedWays)) (map fst ways)
      = filter (\<lambda>k. k \<noteq> nextWayId) (filter (\<lambda>k. k \<notin> set usedWays) (map fst ways))"
    by (auto intro: filter_cong)
  have "length (filter (\<lambda>k. k \<notin> set (nextWayId # usedWays)) (map fst ways))
      < length (filter (\<lambda>k. k \<notin> set usedWays) (map fst ways))"
    unfolding eq using mem by (intro length_filter_less) auto
  then show ?case by (simp only: in_measure prod.case)
qed

function extendBackward ::
  "OSMWay js_object \<Rightarrow> (nat \<rightharpoonup> nat list) \<Rightarrow> nat list \<Rightarrow> nat list \<Rightarrow> nat option
     \<Rightarrow> error + (nat list \<times> nat list)" where
  "extendBackward ways m usedWays currentChain tip =
     (case connections m usedWays tip of
        [] \<Rightarrow> Inr (usedWays, currentChain)
      | nextWayId # _ \<Rightarrow>
          (case map_of ways nextWayId of
             None \<Rightarrow> Inl TypeError
           | Some nextWay \<Rightarrow>
               extendBackward ways m (nextWayId # usedWays) (nextWayId # currentChain)
                 (if lastNode (way_nodes nextWay) = tip then firstNode (way_nodes nextWay)
                  else lastNode (way_nodes nextWay))))"
  by pat_completeness auto
termination
proof (relation "measure (\<lambda>(ways, m, usedWays, currentChain, tip).
    length (filter (\<lambda>k. k \<notin> set usedWays) (map fst ways)))", goal_cases)
  case 1
  show ?case by simp
next
  case (2 ways m usedWays currentChain tip nextWayId rest nextWay)
  have "nextWayId \<in> set (connections m usedWays tip)"
    using 2(1) by simp
  then have unused: "nextWayId \<notin> set usedWays"
    by (auto simp: connections_def split: option.splits)
  have "nextWayId \<in> set (map fst ways)"
    using 2(2) by (auto dest: map_of_SomeD intro: rev_image_eqI)
  with unused have mem: "nextWayId \<in> set (filter (\<lambda>k. k \<notin> set usedWays) (map fst ways))"
    by simp
  have eq: "filter (\<lambda>k. k \<notin> set (nextWayId # usedWays)) (map fst ways)
      = filter (\<lambda>k. k \<noteq> nextWayId) (filter (\<lambda>k. k \<notin> set usedWays) (map fst ways))"
    by (auto intro: filter_cong)
  have "length (filter (\<lambda>k. k \<notin> set (nextWayId # usedWays)) (map fst ways))
      < length (filter (\<lambda>k. k \<notin> set usedWays) (map fst ways))"
    unfolding eq using mem by (intro length_filter_less) auto
  then show ?case by (simp only: in_measure prod.case)
qed

text \<open>The outer \<open>for (... in ways)\<close> loop: one chain per way that is not yet used.\<close>

fun growChains ::
  "OSMWay js_object \<Rightarrow> (nat \<rightharpoonup> nat list) \<Rightarrow> nat list \<Rightarrow> nat list \<Rightarrow> nat list list
     \<Rightarrow> error + nat list list" where
  "growChains ways m [] usedWays allChains = Inr allChains"
| "growChains ways m (wid # keys) usedWays allChains =
     (if wid \<in> set usedWays then growChains ways m keys usedWays allChains
      else
        (case map_of ways wid of
           None \<Rightarrow> Inl TypeError
         | Some way \<Rightarrow>
             (case extendForward ways m (wid # usedWays) [wid] (lastNode (way_nodes way)) of
                Inl e \<Rightarrow> Inl e
              | Inr (used1, chain1) \<Rightarrow>
                  (case extendBackward ways m used1 chain1 (firstNode (way_nodes way)) of
                     Inl e \<Rightarrow> Inl e
                   | Inr (used2, chain2) \<Rightarrow>
                       growChains ways m keys used2 (allChains @ [chain2])))))"

text \<open>
  \<open>chains.sort((a, b) => b.length - a.length)\<close>: a stable sort by decreasing length;
  \<open>longestChain\<close> is its first element.
\<close>

definition sortChains :: "nat list list \<Rightarrow> nat list list" where
  "sortChains allChains = sort_key (\<lambda>c. - int (length c)) allChains"

definition longestChain :: "nat list list \<Rightarrow> nat list" where
  "longestChain allChains = hd (sortChains allChains)"

definition buildPointsForWay ::
  "OSMWay js_object \<Rightarrow> (real \<times> real) js_object \<Rightarrow> nat \<Rightarrow> nat list \<Rightarrow> error + OSMPoint list" where
  "buildPointsForWay ways nodes wid nodeIds =
     (case map_of ways wid of
        None \<Rightarrow>
          if list_ex (\<lambda>nodeId. map_of nodes nodeId \<noteq> None) nodeIds then Inl TypeError
          else Inr []
      | Some way \<Rightarrow>
          Inr (List.map_filter (\<lambda>nodeId.
                 case map_of nodes nodeId of
                   None \<Rightarrow> None
                 | Some (la, lo) \<Rightarrow>
                     Some \<lparr>lat = la, lon = lo, speed = way_speed way,
                           wayId = Some (way_id way)\<rparr>) nodeIds))"

definition nodeAt :: "(real \<times> real) js_object \<Rightarrow> nat option \<Rightarrow> (real \<times> real) option" where
  "nodeAt nodes n = (case n of None \<Rightarrow> None | Some k \<Rightarrow> map_of nodes k)"

fun flattenRest ::
  "OSMWay js_object \<Rightarrow> (real \<times> real) js_object \<Rightarrow> OSMPoint list \<Rightarrow> nat list
     \<Rightarrow> error + OSMPoint list" where
  "flattenRest ways nodes finalPath [] = Inr finalPath"
| "flattenRest ways nodes finalPath (wid # rest) =
     (if finalPath = [] then Inr finalPath
      else
        (case map_of ways wid of
           None \<Rightarrow> Inl TypeError
         | Some currentWay \<Rightarrow>
             (let lastPointOfPath = last finalPath in
              case nodeAt nodes (firstNode (way_nodes currentWay)) of
                None \<Rightarrow> Inl TypeError
              | Some (sla, slo) \<Rightarrow>
                  if lat lastPointOfPath = sla \<and> lon lastPointOfPath = slo then
                    (case buildPointsForWay ways nodes (way_id currentWay)
                            (tl (way_nodes currentWay)) of
                       Inl e \<Rightarrow> Inl e
                     | Inr pts \<Rightarrow> flattenRest ways nodes (finalPath @ pts) rest)
                  else
                    (case nodeAt nodes (lastNode (way_nodes currentWay)) of
                       None \<Rightarrow> Inl TypeError
                     | Some (ela, elo) \<Rightarrow>
                         if lat lastPointOfPath = ela \<and> lon lastPointOfPath = elo then
                           (case buildPointsForWay ways nodes (way_id currentWay)
                                   (tl (rev (way_nodes currentWay))) of
                              Inl e \<Rightarrow> Inl e
                            | Inr pts \<Rightarrow> flattenRest ways nodes (finalPath @ pts) rest)
                         else
                           (case buildPointsForWay ways nodes (way_id currentWay)
                                   (way_nodes currentWay) of
                              Inl e \<Rightarrow> Inl e
                            | Inr pts \<Rightarrow> flattenRest ways nodes (finalPath @ pts) rest)))))"

definition flattenChain ::
  "OSMWay js_object \<Rightarrow> (real \<times> real) js_object \<Rightarrow> nat list \<Rightarrow> error + OSMPoint list" where
  "flattenChain ways nodes chain =
     (case chain of
        [] \<Rightarrow> Inr []
      | firstWayId # rest \<Rightarrow>
          (case map_of ways firstWayId of
             None \<Rightarrow> Inl TypeError
           | Some firstWay \<Rightarrow>
               (case buildPointsForWay ways nodes firstWayId (way_nodes firstWay) of
                  Inl e \<Rightarrow> Inl e
                | Inr pts \<Rightarrow> flattenRest ways nodes pts rest)))"

definition isOneway :: "OSMWay js_object \<Rightarrow> nat \<Rightarrow> bool" where
  "isOneway ways wid =
     (case map_of ways wid of
        None \<Rightarrow> False
      | Some way \<Rightarrow>
          way_oneway way = ''yes'' \<or> way_oneway way = ''true'' \<or> way_oneway way = ''1'')"

definition onewayWaysCount :: "OSMWay js_object \<Rightarrow> nat list \<Rightarrow> nat" where
  "onewayWaysCount ways chain = length (filter (isOneway ways) chain)"

definition needsReversing :: "OSMPoint \<Rightarrow> OSMPoint \<Rightarrow> bool" where
  "needsReversing firstPoint lastPoint =
     (let isNorthSouthDominant =
            \<bar>lat lastPoint - lat firstPoint\<bar> > \<bar>lon lastPoint - lon firstPoint\<bar>
      in if isNorthSouthDominant then lat firstPoint < lat lastPoint
         else lon firstPoint > lon lastPoint)"

definition normalizeDirection ::
  "OSMWay js_object \<Rightarrow> nat list \<Rightarrow> OSMPoint list \<Rightarrow> OSMPoint list" where
  "normalizeDirection ways chain finalPath =
     (if finalPath = [] then finalPath
      else if length chain > 0
              \<and> real (onewayWaysCount ways chain) / real (length chain) > 1 / 2
      then finalPath
      else if needsReversing (hd finalPath) (last finalPath) then rev finalPath
      else finalPath)"

text \<open>
  The carry-forward loop over \<open>sortedPath\<close>, which updates the array in place: index
  \<open>i\<close> reads its predecessor after that one has been processed.
\<close>

definition carryStep :: "OSMPoint list \<Rightarrow> nat \<Rightarrow> OSMPoint list" where
  "carryStep sortedPath i =
     (if speed (sortedPath ! i) = None \<and> i > 0
      then sortedPath[i := (sortedPath ! i)\<lparr>speed := speed (sortedPath ! (i - 1)),
                                           wayId := wayId (sortedPath ! (i - 1))\<rparr>]
      else sortedPath)"

definition carryForward :: "OSMPoint list \<Rightarrow> OSMPoint list" where
  "carryForward sortedPath = foldl carryStep sortedPath [0..<length sortedPath]"

definition fetchStreetData :: "element list \<Rightarrow> error + OSMPoint list" where
  "fetchStreetData elements =
     (if elements = [] then Inr []
      else
        (case parseElements elements of
           (nodes, ways) \<Rightarrow>
             if nodes = [] \<or> ways = [] then Inr []
             else
               (case growChains ways (nodeToWayMap ways) (objectKeys ways) [] [] of
                  Inl e \<Rightarrow> Inl e
                | Inr allChains \<Rightarrow>
                    if allChains = [] then Inr []
                    else
                      (case flattenChain ways nodes (longestChain allChains) of
                         Inl e \<Rightarrow> Inl e
                       | Inr finalPath \<Rightarrow>
                           Inr (carryForward
                                  (normalizeDirection ways (longestChain allChains) finalPath))))))"

section \<open>Geometry and path sampling (\<open>haversineDistance\<close>, \<open>getSamplePoints\<close>)\<close>

text \<open>
  \<open>Math.atan2\<close> on the reals. \<open>haversineDistance\<close> is the source's formula; on the reals
  the argument of each square root lies between 0 and 1.
\<close>

definition atan2 :: "real \<Rightarrow> real \<Rightarrow> real" where
  "atan2 y x =
     (if 0 < x then arctan (y / x)
      else if x < 0 \<and> 0 \<le> y then arctan (y / x) + pi
      else if x < 0 \<and> y < 0 then arctan (y / x) - pi
      else if 0 < y then pi / 2
      else if y < 0 then - pi / 2
      else 0)"

definition haversineDistance :: "real \<Rightarrow> real \<Rightarrow> real \<Rightarrow> real \<Rightarrow> real" where
  "haversineDistance lat1 lon1 lat2 lon2 =
     (let R = 6371;
          dLat = (lat2 - lat1) * pi / 180;
          dLon = (lon2 - lon1) * pi / 180;
          a = sin (dLat / 2) * sin (dLat / 2)
              + cos (lat1 * pi / 180) * cos (lat2 * pi / 180) * sin (dLon / 2) * sin (dLon / 2);
          c = 2 * atan2 (sqrt a) (sqrt (1 - a))
      in R * c)"

text \<open>
  \<open>getSamplePoints\<close>: the cumulative distances, the inner \<open>while\<close> that advances
  \<open>currentPathIndex\<close>, one round of the \<open>for\<close> loop over the target distances
  (\<open>None\<close> is the \<open>break\<close>), and the loop itself. The loop is entered only after the
  guard \<open>distanceKm <= 0\<close> has returned, so its condition carries \<open>0 < distanceKm\<close>.
\<close>

definition interpolate :: "OSMPoint \<Rightarrow> OSMPoint \<Rightarrow> real \<Rightarrow> real \<times> real" where
  "interpolate p1 p2 fraction =
     (lat p1 + (lat p2 - lat p1) * fraction, lon p1 + (lon p2 - lon p1) * fraction)"

fun cumulativeFrom :: "real \<Rightarrow> OSMPoint list \<Rightarrow> real list" where
  "cumulativeFrom d (p # q # rest) =
     (d + haversineDistance (lat p) (lon p) (lat q) (lon q))
       # cumulativeFrom (d + haversineDistance (lat p) (lon p) (lat q) (lon q)) (q # rest)"
| "cumulativeFrom d [p] = []"
| "cumulativeFrom d [] = []"

definition cumulativeDistances :: "OSMPoint list \<Rightarrow> real list" where
  "cumulativeDistances path = 0 # cumulativeFrom 0 path"

definition totalPathDistance :: "OSMPoint list \<Rightarrow> real" where
  "totalPathDistance path = last (cumulativeDistances path)"

function advance :: "real list \<Rightarrow> nat \<Rightarrow> real \<Rightarrow> nat \<Rightarrow> nat" where
  "advance cum n targetDist currentPathIndex =
     (if currentPathIndex < n \<and> cum ! currentPathIndex < targetDist
      then advance cum n targetDist (Suc currentPathIndex)
      else currentPathIndex)"
  by pat_completeness auto
termination
  by (relation "measure (\<lambda>(cum, n, targetDist, currentPathIndex). n - currentPathIndex)") auto

definition sampleStep ::
  "OSMPoint list \<Rightarrow> real list \<Rightarrow> real \<Rightarrow> nat \<Rightarrow> OSMPoint list
     \<Rightarrow> (nat \<times> OSMPoint list) option" where
  "sampleStep path cum targetDist currentPathIndex samplePoints =
     (if targetDist < 0 then Some (currentPathIndex, samplePoints)
      else
        (let i = advance cum (length path) targetDist currentPathIndex in
         if i \<ge> length path then None
         else
           (let p1 = path ! (i - 1);
                p2 = path ! i;
                segmentStartDist = cum ! (i - 1);
                segmentLength = cum ! i - segmentStartDist
            in if segmentLength = 0 then
                 (if samplePoints = []
                     \<or> (lat (last samplePoints) \<noteq> lat p1 \<and> lon (last samplePoints) \<noteq> lon p1)
                  then Some (i, samplePoints @ [p1])
                  else Some (i, samplePoints))
               else
                 (case interpolate p1 p2 ((targetDist - segmentStartDist) / segmentLength) of
                    (la, lo) \<Rightarrow>
                      Some (i, samplePoints
                                 @ [\<lparr>lat = la, lon = lo, speed = speed p1, wayId = wayId p1\<rparr>])))))"

function sampleLoop ::
  "OSMPoint list \<Rightarrow> real list \<Rightarrow> real \<Rightarrow> real \<Rightarrow> real \<Rightarrow> nat \<Rightarrow> OSMPoint list
     \<Rightarrow> OSMPoint list" where
  "sampleLoop path cum distanceKm totalDist targetDist currentPathIndex samplePoints =
     (if 0 < distanceKm \<and> targetDist < totalDist then
        (case sampleStep path cum targetDist currentPathIndex samplePoints of
           None \<Rightarrow> samplePoints
         | Some (i, pts) \<Rightarrow>
             sampleLoop path cum distanceKm totalDist (targetDist + distanceKm) i pts)
      else samplePoints)"
  by pat_completeness auto
termination
proof (relation "measure (\<lambda>(path, cum, distanceKm, totalDist, targetDist,
    currentPathIndex, samplePoints). nat \<lceil>(totalDist - targetDist) / distanceKm\<rceil>)",
    goal_cases)
  case 1
  show ?case by simp
next
  case (2 path cum distanceKm totalDist targetDist currentPathIndex samplePoints x2 i pts)
  then have d: "0 < distanceKm" and t: "targetDist < totalDist" by simp_all
  have "(totalDist - (targetDist + distanceKm)) / distanceKm
      = (totalDist - targetDist) / distanceKm - 1"
    using d by (simp add: field_simps)
  then have "\<lceil>(totalDist - (targetDist + distanceKm)) / distanceKm\<rceil>
      = \<lceil>(totalDist - targetDist) / distanceKm\<rceil> - 1"
    by simp
  moreover have "0 < \<lceil>(totalDist - targetDist) / distanceKm\<rceil>"
    using d t by (simp add: ceiling_less_iff)
  ultimately show ?case by simp
qed

declare advance.simps [simp del] sampleLoop.simps [simp del]

definition getSamplePoints :: "OSMPoint list \<Rightarrow> real \<Rightarrow> real \<Rightarrow> OSMPoint list" where
  "getSamplePoints path distanceKm startOffsetKm =
     (if length path < 2 \<or> distanceKm \<le> 0 then []
      else if startOffsetKm \<ge> totalPathDistance path \<and> totalPathDistance path > 0 then []
      else sampleLoop path (cumulativeDistances path) distanceKm (totalPathDistance path)
             startOffsetKm 1 [])"

section \<open>Analysis pipeline (\<open>handleAnalyzeClick\<close>)\<close>

text \<open>
  \<open>calculateBearing\<close> with the remainder \<open>%\<close> of two numbers (\<open>fmod\<close>). The lateral
  offset \<open>offsetLocation\<close> only feeds the requests to the imagery service and is not part
  of any result.
\<close>

definition fmod :: "real \<Rightarrow> real \<Rightarrow> real" where
  "fmod x y = x - y * of_int (if 0 \<le> x / y then \<lfloor>x / y\<rfloor> else \<lceil>x / y\<rceil>)"

definition calculateBearing :: "OSMPoint \<Rightarrow> OSMPoint \<Rightarrow> real" where
  "calculateBearing p1 p2 =
     (let lat1 = lat p1 * pi / 180;
          lon1 = lon p1 * pi / 180;
          lat2 = lat p2 * pi / 180;
          lon2 = lon p2 * pi / 180;
          dLon = lon2 - lon1;
          y = sin dLon * cos lat2;
          x = cos lat1 * sin lat2 - sin lat1 * cos lat2 * cos dLon;
          brng = atan2 y x * 180 / pi
      in fmod (brng + 360) 360)"

definition forwardHeading :: "OSMPoint list \<Rightarrow> nat \<Rightarrow> OSMPoint \<Rightarrow> real" where
  "forwardHeading pointsToAnalyze index point =
     (if index + 1 < length pointsToAnalyze
      then calculateBearing point (pointsToAnalyze ! (index + 1))
      else if index > 0 then calculateBearing (pointsToAnalyze ! (index - 1)) point
      else 0)"

text \<open>
  The three external calls of a task are opaque: \<open>getStreetViewImage\<close> and
  \<open>getStreetViewMetadata\<close> return a success or an error message and never throw,
  \<open>analyzeSpeedSign\<close> returns a result or \<open>null\<close>, or throws an \<open>Error\<close> with a message
  (\<open>Inl\<close>). What the services answer for the task with a given index is a parameter.
\<close>

record task_response =
  imageResult :: "string + string"
  metadataResult :: "string + string"
  analysis :: "string + GeminiAnalysisResult option"

definition placeholderImage :: string where
  "placeholderImage = ''data:image/gif;base64,R0lGODlhAQABAAD/ACwAAAAAAQABAAACADs=''"

definition isFatal :: "string \<Rightarrow> bool" where
  "isFatal errorMessage =
     (let lowerCaseError = toLowerCase errorMessage
      in includes_str lowerCaseError ''api key''
         \<or> includes_str lowerCaseError ''permission''
         \<or> includes_str lowerCaseError ''403 forbidden'')"

definition failedPoint :: "OSMPoint \<Rightarrow> string \<Rightarrow> real \<Rightarrow> string option \<Rightarrow> AnalyzedPoint" where
  "failedPoint point url h date =
     \<lparr>ap_id = (lat point, lon point), location = point, osmSpeed = speed point,
      detectedSpeed = None, ap_confidence = None, isDiscrepancy = False, imageUrl = url,
      heading = h, ap_wayId = wayId point, imageDate = date\<rparr>"

text \<open>
  The body of the worker loop for one task, from the heading to the \<open>finally\<close> block: the
  point stored at the task's index, and the error the \<open>catch\<close> block throws again when it
  is fatal.
\<close>

definition runTask ::
  "string \<Rightarrow> real \<Rightarrow> OSMPoint list \<Rightarrow> (nat \<Rightarrow> task_response) \<Rightarrow> nat \<Rightarrow> OSMPoint
     \<Rightarrow> AnalyzedPoint \<times> string option" where
  "runTask country confidenceThreshold pointsToAnalyze responses index point =
     (let h = forwardHeading pointsToAnalyze index point in
      case imageResult (responses index) of
        Inl err \<Rightarrow>
          (failedPoint point placeholderImage h None, if isFatal err then Some err else None)
      | Inr base64 \<Rightarrow>
          (let date = (case metadataResult (responses index) of
                         Inl warning \<Rightarrow> None | Inr d \<Rightarrow> Some d);
               url = ''data:image/jpeg;base64,'' @ base64
           in case analysis (responses index) of
                Inl err \<Rightarrow>
                  (failedPoint point url h date, if isFatal err then Some err else None)
              | Inr analysisResult \<Rightarrow>
                  (let final = finalDetectedSpeed country confidenceThreshold analysisResult
                   in (\<lparr>ap_id = (lat point, lon point), location = point,
                        osmSpeed = speed point, detectedSpeed = final,
                        ap_confidence = resultConfidence analysisResult,
                        isDiscrepancy = computeDiscrepancy country (speed point) final,
                        imageUrl = url, heading = h, ap_wayId = wayId point,
                        imageDate = date\<rparr>, None))))"

text \<open>
  The worker pool. The workers are asynchronous functions on one thread, so they interleave
  only at an \<open>await\<close>. A worker is \<open>Idle\<close> at the head of its loop, \<open>Busy\<close> with the
  task it has taken from the queue while it awaits the services, \<open>Done\<close> when its loop has
  ended and \<open>Rejected\<close> when it has thrown. \<open>Step w\<close> lets worker \<open>w\<close> run to its next
  suspension: an idle worker reads the cancellation flag and takes the head of the queue,
  a busy worker finishes its task (stores the point, counts progress, on a fatal error sets
  the flag and throws). \<open>StopClick\<close> is the stop button, which sets the flag. A schedule
  is any list of events; the executions of the program are among them.
\<close>

datatype worker_state = Idle | Busy nat OSMPoint | Done | Rejected string

record pool =
  queue :: "(nat \<times> OSMPoint) list"
  isCancelled :: bool
  results :: "AnalyzedPoint option list"
  workers :: "worker_state list"
  progress :: nat

datatype event = Step nat | StopClick

definition workerStep ::
  "(nat \<Rightarrow> OSMPoint \<Rightarrow> AnalyzedPoint \<times> string option) \<Rightarrow> nat \<Rightarrow> pool \<Rightarrow> pool" where
  "workerStep task w st =
     (if w \<ge> length (workers st) then st
      else
        (case workers st ! w of
           Idle \<Rightarrow>
             if isCancelled st then st\<lparr>workers := (workers st)[w := Done]\<rparr>
             else
               (case queue st of
                  [] \<Rightarrow> st\<lparr>workers := (workers st)[w := Done]\<rparr>
                | (index, point) # rest \<Rightarrow>
                    st\<lparr>queue := rest, workers := (workers st)[w := Busy index point]\<rparr>)
         | Busy index point \<Rightarrow>
             (case task index point of
                (newPoint, None) \<Rightarrow>
                  st\<lparr>results := (results st)[index := Some newPoint],
                     progress := progress st + 1,
                     workers := (workers st)[w := Idle]\<rparr>
              | (newPoint, Some err) \<Rightarrow>
                  st\<lparr>isCancelled := True,
                     results := (results st)[index := Some newPoint],
                     progress := progress st + 1,
                     workers := (workers st)[w := Rejected err]\<rparr>)
         | Done \<Rightarrow> st
         | Rejected err \<Rightarrow> st))"

definition applyEvent ::
  "(nat \<Rightarrow> OSMPoint \<Rightarrow> AnalyzedPoint \<times> string option) \<Rightarrow> pool \<Rightarrow> event \<Rightarrow> pool" where
  "applyEvent task st ev =
     (case ev of Step w \<Rightarrow> workerStep task w st | StopClick \<Rightarrow> st\<lparr>isCancelled := True\<rparr>)"

definition runEvents ::
  "(nat \<Rightarrow> OSMPoint \<Rightarrow> AnalyzedPoint \<times> string option) \<Rightarrow> event list \<Rightarrow> pool \<Rightarrow> pool" where
  "runEvents task sched st = foldl (applyEvent task) st sched"

definition initialPool :: "OSMPoint list \<Rightarrow> nat \<Rightarrow> pool" where
  "initialPool pointsToAnalyze concurrency =
     \<lparr>queue = enumerate 0 pointsToAnalyze, isCancelled = False,
      results = replicate (length pointsToAnalyze) None,
      workers = replicate concurrency Idle, progress = 0\<rparr>"

text \<open>
  \<open>await Promise.allSettled(workers)\<close> resumes when every worker has ended or thrown, and
  never throws itself. After the events of the schedule the remaining workers are run
  round-robin until all have settled (\<open>drainSchedule\<close>).
\<close>

definition settled :: "worker_state \<Rightarrow> bool" where
  "settled ws = (case ws of Done \<Rightarrow> True | Rejected err \<Rightarrow> True | _ \<Rightarrow> False)"

definition drainSchedule :: "pool \<Rightarrow> event list" where
  "drainSchedule st =
     concat (replicate (2 * length (queue st) + 2) (map Step [0..<length (workers st)]))"

definition allSettled ::
  "(nat \<Rightarrow> OSMPoint \<Rightarrow> AnalyzedPoint \<times> string option) \<Rightarrow> event list \<Rightarrow> pool \<Rightarrow> pool" where
  "allSettled task sched st =
     (let st1 = runEvents task sched st in runEvents task (drainSchedule st1) st1)"

definition finalPoints :: "AnalyzedPoint option list \<Rightarrow> AnalyzedPoint list" where
  "finalPoints rs = List.map_filter (\<lambda>p. p) rs"

text \<open>
  The handler: the component state it reads (\<open>settings\<close>), the state it sets (\<open>ui_state\<close>),
  its main path from the cap on the number of points to the end of the \<open>try\<close> block
  (\<open>analyzeSamples\<close>), its \<open>catch\<close> block (\<open>catchError\<close>) and the whole handler. The
  result of \<open>await fetchStreetData(...)\<close>, a path or a thrown message, is a parameter.
  The log is not modelled.
\<close>

record settings =
  apiKey :: string
  streetName :: string
  cityName :: string
  provinceState :: string
  country :: string
  reverseDirection :: bool
  startOffset :: real
  samplingDistance :: real
  maxPoints :: nat
  concurrency :: nat
  confidenceThreshold :: real

record ui_state =
  analyzedPoints :: "AnalyzedPoint list"
  ui_error :: "string option"
  isKeyInvalid :: bool
  isLoading :: bool
  isCancelledRef :: bool
  ui_progress :: nat

definition capPoints :: "nat \<Rightarrow> OSMPoint list \<Rightarrow> OSMPoint list" where
  "capPoints maxPts pointsToAnalyze =
     (if length pointsToAnalyze > maxPts then take maxPts pointsToAnalyze
      else pointsToAnalyze)"

definition analyzeSamples ::
  "settings \<Rightarrow> (nat \<Rightarrow> task_response) \<Rightarrow> event list \<Rightarrow> OSMPoint list \<Rightarrow> ui_state
     \<Rightarrow> ui_state" where
  "analyzeSamples cfg responses sched samples ui =
     (let pointsToAnalyze = capPoints (maxPoints cfg) samples in
      if pointsToAnalyze = [] then ui\<lparr>isLoading := False\<rparr>
      else
        (let st = allSettled
                    (runTask (country cfg) (confidenceThreshold cfg) pointsToAnalyze responses)
                    sched (initialPool pointsToAnalyze (concurrency cfg))
         in ui\<lparr>analyzedPoints := finalPoints (results st),
               isCancelledRef := isCancelled st,
               ui_progress := progress st,
               isLoading := False\<rparr>))"

definition keyErrorMessage :: string where
  "keyErrorMessage = ''The analysis was stopped because of an API key error. Please verify your key and ensure these APIs are enabled in your Google Cloud project: '' @ [CHR 0x22] @ ''Street View Static API'' @ [CHR 0x22] @ '', '' @ [CHR 0x22] @ ''Maps Static API'' @ [CHR 0x22] @ '', and '' @ [CHR 0x22] @ ''Vertex AI API'' @ [CHR 0x22] @ ''.''"

definition catchError :: "string \<Rightarrow> ui_state \<Rightarrow> ui_state" where
  "catchError errorMessage ui =
     (if isFatal errorMessage
      then ui\<lparr>isKeyInvalid := True, ui_error := Some keyErrorMessage, isLoading := False\<rparr>
      else ui\<lparr>ui_error := Some errorMessage, isLoading := False\<rparr>)"

definition noSegmentsMessage :: "settings \<Rightarrow> string" where
  "noSegmentsMessage cfg =
     ''No valid street segments found for '' @ [CHR 0x22] @ streetName cfg @ [CHR 0x22]
       @ '' in '' @ [CHR 0x22] @ cityName cfg @ '', '' @ provinceState cfg @ [CHR 0x22]
       @ '' on OpenStreetMap. Please check spelling and try again.''"

definition handleAnalyzeClick ::
  "settings \<Rightarrow> string + OSMPoint list \<Rightarrow> (nat \<Rightarrow> task_response) \<Rightarrow> event list \<Rightarrow> ui_state
     \<Rightarrow> ui_state" where
  "handleAnalyzeClick cfg fetched responses sched ui =
     (if apiKey cfg = [] then
        ui\<lparr>ui_error := Some ''A Google API Key is required to perform the analysis. Please provide one in the settings.''\<rparr>
      else if streetName cfg = [] \<or> cityName cfg = [] \<or> provinceState cfg = [] then
        ui\<lparr>ui_error := Some ''Please select a country, province/state, and enter a city and street name.''\<rparr>
      else
        (let ui1 = ui\<lparr>isCancelledRef := False, isLoading := True, analyzedPoints := [],
                      ui_error := None, isKeyInvalid := False, ui_progress := 0\<rparr>
         in case fetched of
              Inl errorMessage \<Rightarrow> catchError errorMessage ui1
            | Inr fetchedPath \<Rightarrow>
                (let highwayPath = (if reverseDirection cfg then rev fetchedPath else fetchedPath)
                 in if highwayPath = [] then catchError (noSegmentsMessage cfg) ui1
                    else analyzeSamples cfg responses sched
                           (getSamplePoints highwayPath (samplingDistance cfg / 1000)
                              (startOffset cfg)) ui1)))"

text \<open>
  The invariant of the pool used in the proofs: \<open>k\<close> tasks have been taken from the queue.
\<close>

definition queueInv :: "OSMPoint list \<Rightarrow> nat \<Rightarrow> pool \<Rightarrow> bool" where
  "queueInv pts k st \<longleftrightarrow>
     k \<le> length pts \<and> queue st = map (\<lambda>i. (i, pts ! i)) [k..<length pts]"

definition busyInv :: "OSMPoint list \<Rightarrow> nat \<Rightarrow> pool \<Rightarrow> bool" where
  "busyInv pts k st \<longleftrightarrow>
     (\<forall>w < length (workers st). \<forall>i p. workers st ! w = Busy i p
        \<longrightarrow> i < k \<and> p = pts ! i \<and> results st ! i = None)"

definition freshInv :: "OSMPoint list \<Rightarrow> nat \<Rightarrow> pool \<Rightarrow> bool" where
  "freshInv pts k st \<longleftrightarrow> (\<forall>i. k \<le> i \<and> i < length pts \<longrightarrow> results st ! i = None)"

definition coverInv :: "OSMPoint list \<Rightarrow> nat \<Rightarrow> pool \<Rightarrow> bool" where
  "coverInv pts k st \<longleftrightarrow>
     (\<forall>i < k. results st ! i \<noteq> None
        \<or> (\<exists>w < length (workers st). workers st ! w = Busy i (pts ! i)))"

definition distinctInv :: "pool \<Rightarrow> bool" where
  "distinctInv st \<longleftrightarrow>
     (\<forall>w < length (workers st). \<forall>v < length (workers st). \<forall>i p q.
        workers st ! w = Busy i p \<and> workers st ! v = Busy i q \<longrightarrow> w = v)"

definition valueInv ::
  "(nat \<Rightarrow> OSMPoint \<Rightarrow> AnalyzedPoint \<times> string option) \<Rightarrow> OSMPoint list \<Rightarrow> pool \<Rightarrow> bool" where
  "valueInv task pts st \<longleftrightarrow>
     length (results st) = length pts
     \<and> (\<forall>i < length pts. results st ! i = None
           \<or> results st ! i = Some (fst (task i (pts ! i))))"

definition exitInv :: "pool \<Rightarrow> bool" where
  "exitInv st \<longleftrightarrow>
     (\<forall>w < length (workers st).
        (workers st ! w = Done \<longrightarrow> isCancelled st \<or> queue st = [])
        \<and> (\<forall>e. workers st ! w = Rejected e \<longrightarrow> isCancelled st))"

definition poolInvK ::
  "(nat \<Rightarrow> OSMPoint \<Rightarrow> AnalyzedPoint \<times> string option) \<Rightarrow> OSMPoint list \<Rightarrow> nat \<Rightarrow> pool \<Rightarrow> bool" where
  "poolInvK task pts k st \<longleftrightarrow>
     queueInv pts k st \<and> busyInv pts k st \<and> freshInv pts k st \<and> coverInv pts k st
     \<and> distinctInv st \<and> valueInv task pts st \<and> exitInv st"

definition poolInv ::
  "(nat \<Rightarrow> OSMPoint \<Rightarrow> AnalyzedPoint \<times> string option) \<Rightarrow> OSMPoint list \<Rightarrow> pool \<Rightarrow> bool" where
  "poolInv task pts st \<longleftrightarrow> (\<exists>k. poolInvK task pts k st)"

text \<open>
  The measure used to show that the round-robin drain settles every worker: what worker
  \<open>w\<close> can still do, given the length of the queue.
\<close>

definition potential :: "pool \<Rightarrow> nat \<Rightarrow> nat" where
  "potential st w =
     (if w < length (workers st) then
        (case workers st ! w of
           Idle \<Rightarrow> 2 * length (queue st) + 1
         | Busy i p \<Rightarrow> 2 * length (queue st) + 2
         | Done \<Rightarrow> 0
         | Rejected e \<Rightarrow> 0)
      else 0)"

section \<open>Verified properties\<close>

subsection \<open>Validation and classification\<close>

text \<open>
  C8. A detection that carries a value \<open>v\<close> and a confidence is discarded (the validated
  speed is null) exactly when the confidence is strictly below the configured threshold or
  \<open>v\<close> lies outside the plausibility bounds of the country: outside 5..90 for \<open>USA\<close>
  (mph), outside 10..150 for every other country (km/h). A detection that is kept is kept
  unchanged.
\<close>

theorem C8_discard_iff:
  "finalDetectedSpeed ctry thr (Some \<lparr>speed_limit = Some v, confidence = c\<rparr>) =
     (if c < thr \<or> (if ctry = ''USA'' then v < 5 \<or> 90 < v else v < 10 \<or> 150 < v)
      then None else Some v)"
  by (auto simp: finalDetectedSpeed_def rawDetectedSpeed_def resultConfidence_def
      minSpeed_def maxSpeed_def)

theorem C8_discard_iff_witness:
  "finalDetectedSpeed ''USA'' (3 / 10) (Some \<lparr>speed_limit = Some 95, confidence = 9 / 10\<rparr>) = None
   \<and> finalDetectedSpeed ''CAN'' (3 / 10) (Some \<lparr>speed_limit = Some 95, confidence = 9 / 10\<rparr>) = Some 95
   \<and> finalDetectedSpeed ''CAN'' (3 / 10) (Some \<lparr>speed_limit = Some 50, confidence = 2 / 10\<rparr>) = None
   \<and> finalDetectedSpeed ''USA'' (3 / 10) (Some \<lparr>speed_limit = Some 5, confidence = 3 / 10\<rparr>) = Some 5"
  using C8_discard_iff [of "''USA''" "3 / 10" 95 "9 / 10"]
    C8_discard_iff [of "''CAN''" "3 / 10" 95 "9 / 10"]
    C8_discard_iff [of "''CAN''" "3 / 10" 50 "2 / 10"]
    C8_discard_iff [of "''USA''" "3 / 10" 5 "3 / 10"]
  by simp

text \<open>
  C3. The discrepancy flag is set exactly when a recorded tag and a validated detected speed
  both exist and either the first run of digits of the tag, converted with the detected
  speed to km/h (a tag mentioning mph and a detection in \<open>USA\<close> are in mph), differs from it
  by more than 5, or the tag has no digits at all; or when a validated detected speed exists
  with no recorded tag. Recorded "50 mph" against 80 in a km/h country is no discrepancy;
  no recorded tag against 60 is one; recorded "signals" against 40 is one.
\<close>

theorem C3_discrepancy_iff:
  "(computeDiscrepancy ctry recorded detected \<longleftrightarrow>
      (\<exists>tag d. recorded = Some tag \<and> detected = Some d \<and>
         ((\<exists>m. matchDigits tag = Some m \<and>
             \<bar>(if includes_str (toLowerCase tag) ''mph''
                then real (parseInt m) * (160934 / 100000) else real (parseInt m))
               - (if ctry = ''USA'' then d * (160934 / 100000) else d)\<bar> > 5)
          \<or> matchDigits tag = None))
      \<or> (recorded = None \<and> (\<exists>d. detected = Some d)))
   \<and> computeDiscrepancy ''CAN'' (Some ''50 mph'') (Some 80) = False
   \<and> computeDiscrepancy ctry None (Some 60) = True
   \<and> computeDiscrepancy ctry (Some ''signals'') (Some 40) = True"
proof -
  have "computeDiscrepancy ''CAN'' (Some ''50 mph'') (Some 80) = False"
    by (simp add: computeDiscrepancy_def matchDigits_def isDigit_def parseInt_def
        osmSpeedInKmh_def detectedSpeedInKmh_def toLowerCase_def toLowerChar_def mphFactor_def)
  moreover have "computeDiscrepancy ctry (Some ''signals'') (Some 40) = True"
    by (simp add: computeDiscrepancy_def matchDigits_def isDigit_def)
  moreover have "computeDiscrepancy ctry None (Some 60) = True"
    by (simp add: computeDiscrepancy_def)
  moreover have "computeDiscrepancy ctry recorded detected \<longleftrightarrow>
      (\<exists>tag d. recorded = Some tag \<and> detected = Some d \<and>
         ((\<exists>m. matchDigits tag = Some m \<and>
             \<bar>(if includes_str (toLowerCase tag) ''mph''
                then real (parseInt m) * (160934 / 100000) else real (parseInt m))
               - (if ctry = ''USA'' then d * (160934 / 100000) else d)\<bar> > 5)
          \<or> matchDigits tag = None))
      \<or> (recorded = None \<and> (\<exists>d. detected = Some d))"
    by (auto simp: computeDiscrepancy_def osmSpeedInKmh_def detectedSpeedInKmh_def
        mphFactor_def split: option.splits)
  ultimately show ?thesis by blast
qed

theorem C3_discrepancy_iff_witness:
  "computeDiscrepancy ''USA'' (Some ''30 mph'') (Some 45) = True
   \<and> computeDiscrepancy ''USA'' (Some ''45 mph'') (Some 45) = False
   \<and> computeDiscrepancy ''CAN'' (Some ''50 mph'') (Some 80) = False
   \<and> computeDiscrepancy ''CAN'' None (Some 60) = True
   \<and> computeDiscrepancy ''CAN'' (Some ''signals'') (Some 40) = True
   \<and> computeDiscrepancy ''CAN'' (Some ''50'') None = False"
  using C3_discrepancy_iff [of "''USA''" "Some ''30 mph''" "Some 45"]
    C3_discrepancy_iff [of "''USA''" "Some ''45 mph''" "Some 45"]
    C3_discrepancy_iff [of "''CAN''" "Some ''50''" None]
  by (simp add: matchDigits_def isDigit_def parseInt_def toLowerCase_def toLowerChar_def)

subsection \<open>Path assembly\<close>

lemma hd_insort_key:
  "hd (insort_key f x ys) = (if ys = [] \<or> f x \<le> f (hd ys) then x else hd ys)"
  by (cases ys) auto

lemma sort_key_not_Nil: "xs \<noteq> [] \<Longrightarrow> sort_key f xs \<noteq> []"
  by (metis length_0_conv length_sort)

lemma hd_sort_key_first_min:
  fixes f :: "'a \<Rightarrow> int"
  shows "xs \<noteq> [] \<Longrightarrow>
    \<exists>i < length xs. hd (sort_key f xs) = xs ! i
       \<and> (\<forall>j < length xs. f (xs ! i) \<le> f (xs ! j))
       \<and> (\<forall>j < i. f (xs ! i) < f (xs ! j))"
proof (induction xs)
  case Nil
  then show ?case by simp
next
  case (Cons x xs)
  show ?case
  proof (cases "xs = []")
    case True
    then show ?thesis by simp
  next
    case False
    with Cons.IH obtain i where i: "i < length xs" "hd (sort_key f xs) = xs ! i"
      "\<forall>j < length xs. f (xs ! i) \<le> f (xs ! j)" "\<forall>j < i. f (xs ! i) < f (xs ! j)"
      by blast
    have ne: "sort_key f xs \<noteq> []" using False by (rule sort_key_not_Nil)
    have hd_eq: "hd (sort_key f (x # xs)) = (if f x \<le> f (xs ! i) then x else xs ! i)"
      using ne i(2) by (simp add: hd_insort_key)
    show ?thesis
    proof (cases "f x \<le> f (xs ! i)")
      case True
      have "\<forall>j < length (x # xs). f ((x # xs) ! 0) \<le> f ((x # xs) ! j)"
      proof (intro allI impI)
        fix j assume "j < length (x # xs)"
        then show "f ((x # xs) ! 0) \<le> f ((x # xs) ! j)"
          using True i(3) by (cases j) (auto intro: order_trans)
      qed
      with True hd_eq show ?thesis
        by (intro exI[of _ 0]) simp
    next
      case False
      have a: "\<forall>j < length (x # xs). f ((x # xs) ! Suc i) \<le> f ((x # xs) ! j)"
      proof (intro allI impI)
        fix j assume "j < length (x # xs)"
        then show "f ((x # xs) ! Suc i) \<le> f ((x # xs) ! j)"
          using False i(3) by (cases j) auto
      qed
      have b: "\<forall>j < Suc i. f ((x # xs) ! Suc i) < f ((x # xs) ! j)"
      proof (intro allI impI)
        fix j assume "j < Suc i"
        then show "f ((x # xs) ! Suc i) < f ((x # xs) ! j)"
          using False i(4) by (cases j) auto
      qed
      from False hd_eq i(1) a b show ?thesis
        by (intro exI[of _ "Suc i"]) simp
    qed
  qed
qed

lemma longestChain_first_longest:
  assumes "cs \<noteq> []"
  shows "\<exists>i < length cs. longestChain cs = cs ! i
       \<and> (\<forall>j < length cs. length (cs ! j) \<le> length (cs ! i))
       \<and> (\<forall>j < i. length (cs ! j) < length (cs ! i))"
  using hd_sort_key_first_min [OF assms, of "\<lambda>c. - int (length c)"]
  by (simp add: longestChain_def sortChains_def)

text \<open>
  C5. The canonical chain is the first chain, in the order the chains were built, among
  those with the greatest number of fragments: a chain with strictly more fragments than
  every other is selected, and equal counts are resolved by that fixed order. With no
  elements, no nodes, no ways or no chains the result is the empty path, not an error;
  otherwise the path is built from the selected chain.
\<close>

theorem C5_canonical_chain:
  "(allChains \<noteq> [] \<longrightarrow>
      (\<exists>i < length allChains. longestChain allChains = allChains ! i
         \<and> (\<forall>j < length allChains. length (allChains ! j) \<le> length (allChains ! i))
         \<and> (\<forall>j < i. length (allChains ! j) < length (allChains ! i))))
   \<and> (\<forall>i < length allChains.
         (\<forall>j < length allChains. j \<noteq> i \<longrightarrow> length (allChains ! j) < length (allChains ! i))
         \<longrightarrow> longestChain allChains = allChains ! i)
   \<and> fetchStreetData [] = Inr []
   \<and> (fst (parseElements elements) = [] \<or> snd (parseElements elements) = []
        \<longrightarrow> fetchStreetData elements = Inr [])
   \<and> (growChains (snd (parseElements elements)) (nodeToWayMap (snd (parseElements elements)))
          (objectKeys (snd (parseElements elements))) [] [] = Inr []
        \<longrightarrow> fetchStreetData elements = Inr [])
   \<and> (elements \<noteq> [] \<and> fst (parseElements elements) \<noteq> [] \<and> snd (parseElements elements) \<noteq> []
        \<and> growChains (snd (parseElements elements)) (nodeToWayMap (snd (parseElements elements)))
             (objectKeys (snd (parseElements elements))) [] [] = Inr allChains
        \<and> allChains \<noteq> []
        \<longrightarrow> fetchStreetData elements =
             (case flattenChain (snd (parseElements elements)) (fst (parseElements elements))
                     (longestChain allChains) of
                Inl e \<Rightarrow> Inl e
              | Inr finalPath \<Rightarrow>
                  Inr (carryForward (normalizeDirection (snd (parseElements elements))
                         (longestChain allChains) finalPath))))"
proof -
  have first: "allChains \<noteq> [] \<longrightarrow>
      (\<exists>i < length allChains. longestChain allChains = allChains ! i
         \<and> (\<forall>j < length allChains. length (allChains ! j) \<le> length (allChains ! i))
         \<and> (\<forall>j < i. length (allChains ! j) < length (allChains ! i)))"
    using longestChain_first_longest by blast
  have strict: "\<forall>i < length allChains.
         (\<forall>j < length allChains. j \<noteq> i \<longrightarrow> length (allChains ! j) < length (allChains ! i))
         \<longrightarrow> longestChain allChains = allChains ! i"
  proof (intro allI impI)
    fix i
    assume i: "i < length allChains"
      and longer: "\<forall>j < length allChains. j \<noteq> i \<longrightarrow> length (allChains ! j) < length (allChains ! i)"
    from i have "allChains \<noteq> []" by auto
    with first obtain k where k: "k < length allChains" "longestChain allChains = allChains ! k"
      "\<forall>j < length allChains. length (allChains ! j) \<le> length (allChains ! k)"
      by blast
    have "k = i"
    proof (rule ccontr)
      assume "k \<noteq> i"
      with longer k(1) have "length (allChains ! k) < length (allChains ! i)" by blast
      moreover from k(3) i have "length (allChains ! i) \<le> length (allChains ! k)" by blast
      ultimately show False by simp
    qed
    with k(2) show "longestChain allChains = allChains ! i" by simp
  qed
  have empty: "fetchStreetData [] = Inr []"
    by (simp add: fetchStreetData_def)
  have none: "fst (parseElements elements) = [] \<or> snd (parseElements elements) = []
        \<longrightarrow> fetchStreetData elements = Inr []"
    by (auto simp: fetchStreetData_def split: prod.splits)
  have nochain: "growChains (snd (parseElements elements))
          (nodeToWayMap (snd (parseElements elements)))
          (objectKeys (snd (parseElements elements))) [] [] = Inr []
        \<longrightarrow> fetchStreetData elements = Inr []"
    by (auto simp: fetchStreetData_def split: prod.splits)
  have built: "elements \<noteq> [] \<and> fst (parseElements elements) \<noteq> []
        \<and> snd (parseElements elements) \<noteq> []
        \<and> growChains (snd (parseElements elements)) (nodeToWayMap (snd (parseElements elements)))
             (objectKeys (snd (parseElements elements))) [] [] = Inr allChains
        \<and> allChains \<noteq> []
        \<longrightarrow> fetchStreetData elements =
             (case flattenChain (snd (parseElements elements)) (fst (parseElements elements))
                     (longestChain allChains) of
                Inl e \<Rightarrow> Inl e
              | Inr finalPath \<Rightarrow>
                  Inr (carryForward (normalizeDirection (snd (parseElements elements))
                         (longestChain allChains) finalPath)))"
  proof (cases "parseElements elements")
    case (Pair nodes ways)
    then show ?thesis by (simp add: fetchStreetData_def cong: sum.case_cong)
  qed
  from first strict empty none nochain built show ?thesis by blast
qed

theorem C5_canonical_chain_witness:
  "longestChain [[1], [2, 3], [4, 5]] = [2, 3]
   \<and> longestChain [[1], [2, 3, 6], [4, 5]] = [2, 3, 6]
   \<and> fetchStreetData [NodeElement 1 0 0, NodeElement 2 0 1, OtherElement] = Inr []
   \<and> fetchStreetData
        [NodeElement 1 0 0, NodeElement 2 0 1, NodeElement 3 0 2, NodeElement 4 5 5,
         NodeElement 5 5 6, WayElement 30 [4, 5] (Some ''30'') None,
         WayElement 10 [1, 2] (Some ''50'') None, WayElement 20 [2, 3] (Some ''60'') None]
      = Inr [\<lparr>lat = 0, lon = 0, speed = Some ''50'', wayId = Some 10\<rparr>,
             \<lparr>lat = 0, lon = 1, speed = Some ''50'', wayId = Some 10\<rparr>,
             \<lparr>lat = 0, lon = 2, speed = Some ''60'', wayId = Some 20\<rparr>]"
  using C5_canonical_chain [of "[[1], [2, 3], [4, 5]]"
      "[NodeElement 1 0 0, NodeElement 2 0 1, OtherElement]"]
    C5_canonical_chain [of "[[1], [2, 3, 6], [4, 5]]" "[]"]
    C5_canonical_chain [of "[[10, 20], [30]]"
      "[NodeElement 1 0 0, NodeElement 2 0 1, NodeElement 3 0 2, NodeElement 4 5 5,
         NodeElement 5 5 6, WayElement 30 [4, 5] (Some ''30'') None,
         WayElement 10 [1, 2] (Some ''50'') None, WayElement 20 [2, 3] (Some ''60'') None]"]
  by (simp add: fetchStreetData_def parseElements_def orNull_def orNo_def objectKeys_def
     nodeToWayMap_def pushWay_def connections_def firstNode_def lastNode_def
     longestChain_def sortChains_def flattenChain_def buildPointsForWay_def List.map_filter_def
     nodeAt_def normalizeDirection_def onewayWaysCount_def isOneway_def needsReversing_def
     carryForward_def carryStep_def upt_rec)

text \<open>
  C4 (evaluation of the code at a single simple chain). Two fragments, 1 with nodes
  \<open>[2, 1]\<close> and 2 with nodes \<open>[2, 3]\<close>, share node 2 and form the chain 1 - 2 - 3. The
  chain is grown from fragment 1 and fragment 2 is prepended, but the flattening emits the
  first fragment of the chain as stored, \<open>2, 3\<close>, and then finds neither end of fragment 1
  at node 3: it appends fragment 1 unmodified. The path has 4 points, node 2 twice,
  where the sum of the node counts minus the shared endpoint is 3.
\<close>

theorem C4_single_chain_four_points:
  "fetchStreetData
     [NodeElement 1 0 0, NodeElement 2 0 1, NodeElement 3 0 2,
      WayElement 1 [2, 1] (Some ''50'') None, WayElement 2 [2, 3] (Some ''60'') None]
   = Inr [\<lparr>lat = 0, lon = 0, speed = Some ''50'', wayId = Some 1\<rparr>,
          \<lparr>lat = 0, lon = 1, speed = Some ''50'', wayId = Some 1\<rparr>,
          \<lparr>lat = 0, lon = 2, speed = Some ''60'', wayId = Some 2\<rparr>,
          \<lparr>lat = 0, lon = 1, speed = Some ''60'', wayId = Some 2\<rparr>]"
  by (simp add: fetchStreetData_def parseElements_def orNull_def orNo_def objectKeys_def
     nodeToWayMap_def pushWay_def connections_def firstNode_def lastNode_def
     longestChain_def sortChains_def flattenChain_def buildPointsForWay_def List.map_filter_def
     nodeAt_def normalizeDirection_def onewayWaysCount_def isOneway_def needsReversing_def
     carryForward_def carryStep_def upt_rec)

text \<open>
  C6. For a non-empty flattened path: when more than half of the fragments of the canonical
  chain are tagged one-way (\<open>yes\<close>, \<open>true\<close> or \<open>1\<close>) the path is kept as assembled.
  Otherwise it is reversed exactly when, on the dominant axis (latitude when the latitude
  span exceeds the longitude span, else longitude), its first point is south of its last
  point, respectively east of it; the result then runs north to south, respectively west to
  east.
\<close>

theorem C6_direction:
  assumes "finalPath \<noteq> []"
  shows "(0 < length chain
            \<and> 1 / 2 < real (length (filter (isOneway ways) chain)) / real (length chain)
          \<longrightarrow> normalizeDirection ways chain finalPath = finalPath)
    \<and> (\<not> (0 < length chain
            \<and> 1 / 2 < real (length (filter (isOneway ways) chain)) / real (length chain))
          \<longrightarrow> normalizeDirection ways chain finalPath =
                (if (if \<bar>lat (last finalPath) - lat (hd finalPath)\<bar>
                          > \<bar>lon (last finalPath) - lon (hd finalPath)\<bar>
                     then lat (hd finalPath) < lat (last finalPath)
                     else lon (hd finalPath) > lon (last finalPath))
                 then rev finalPath else finalPath)
              \<and> (if \<bar>lat (last finalPath) - lat (hd finalPath)\<bar>
                      > \<bar>lon (last finalPath) - lon (hd finalPath)\<bar>
                  then lat (hd (normalizeDirection ways chain finalPath))
                         \<ge> lat (last (normalizeDirection ways chain finalPath))
                  else lon (hd (normalizeDirection ways chain finalPath))
                         \<le> lon (last (normalizeDirection ways chain finalPath))))"
  using assms
  by (auto simp: normalizeDirection_def needsReversing_def onewayWaysCount_def Let_def
      hd_rev last_rev)


theorem C6_direction_witness:
  "normalizeDirection [(1, \<lparr>way_id = 1, way_nodes = [1, 2], way_speed = None, way_oneway = ''no''\<rparr>)]
       [1]
       [\<lparr>lat = 43, lon = -79, speed = None, wayId = Some 1\<rparr>,
        \<lparr>lat = 44, lon = -79, speed = None, wayId = Some 1\<rparr>]
     = [\<lparr>lat = 44, lon = -79, speed = None, wayId = Some 1\<rparr>,
        \<lparr>lat = 43, lon = -79, speed = None, wayId = Some 1\<rparr>]
   \<and> normalizeDirection [(1, \<lparr>way_id = 1, way_nodes = [1, 2], way_speed = None, way_oneway = ''yes''\<rparr>)]
       [1]
       [\<lparr>lat = 43, lon = -79, speed = None, wayId = Some 1\<rparr>,
        \<lparr>lat = 44, lon = -79, speed = None, wayId = Some 1\<rparr>]
     = [\<lparr>lat = 43, lon = -79, speed = None, wayId = Some 1\<rparr>,
        \<lparr>lat = 44, lon = -79, speed = None, wayId = Some 1\<rparr>]"
  using C6_direction [of
      "[\<lparr>lat = 43, lon = -79, speed = None, wayId = Some 1\<rparr>,
        \<lparr>lat = 44, lon = -79, speed = None, wayId = Some 1\<rparr>]"
      "[1]"
      "[(1, \<lparr>way_id = 1, way_nodes = [1, 2], way_speed = None, way_oneway = ''no''\<rparr>)]"]
    C6_direction [of
      "[\<lparr>lat = 43, lon = -79, speed = None, wayId = Some 1\<rparr>,
        \<lparr>lat = 44, lon = -79, speed = None, wayId = Some 1\<rparr>]"
      "[1]"
      "[(1, \<lparr>way_id = 1, way_nodes = [1, 2], way_speed = None, way_oneway = ''yes''\<rparr>)]"]
  by (simp add: isOneway_def)

lemma carryStep_length: "length (carryStep xs i) = length xs"
  by (simp add: carryStep_def)

lemma carryStep_other: "j \<noteq> i \<Longrightarrow> carryStep xs i ! j = xs ! j"
  by (simp add: carryStep_def)

lemma carryStep_at:
  "i < length xs \<Longrightarrow> carryStep xs i ! i =
     (if speed (xs ! i) = None \<and> 0 < i
      then (xs ! i)\<lparr>speed := speed (xs ! (i - 1)), wayId := wayId (xs ! (i - 1))\<rparr>
      else xs ! i)"
  by (simp add: carryStep_def)

lemma carry_prefix_invariant:
  "k \<le> length xs \<Longrightarrow>
     length (foldl carryStep xs [0..<k]) = length xs
     \<and> (\<forall>i. k \<le> i \<longrightarrow> foldl carryStep xs [0..<k] ! i = xs ! i)
     \<and> (\<forall>i < k. foldl carryStep xs [0..<k] ! i =
           (if speed (xs ! i) = None \<and> 0 < i
            then (xs ! i)\<lparr>speed := speed (foldl carryStep xs [0..<k] ! (i - 1)),
                           wayId := wayId (foldl carryStep xs [0..<k] ! (i - 1))\<rparr>
            else xs ! i))"
proof (induction k)
  case 0
  then show ?case by simp
next
  case (Suc k)
  define ys where "ys = foldl carryStep xs [0..<k]"
  have k: "k < length xs" using Suc.prems by simp
  from Suc.IH k have len: "length ys = length xs"
    and rest: "\<And>i. k \<le> i \<Longrightarrow> ys ! i = xs ! i"
    and before: "\<And>i. i < k \<Longrightarrow> ys ! i =
           (if speed (xs ! i) = None \<and> 0 < i
            then (xs ! i)\<lparr>speed := speed (ys ! (i - 1)), wayId := wayId (ys ! (i - 1))\<rparr>
            else xs ! i)"
    by (simp_all add: ys_def)
  have step: "foldl carryStep xs [0..<Suc k] = carryStep ys k"
    by (simp add: ys_def)
  have a: "length (carryStep ys k) = length xs"
    by (simp add: carryStep_length len)
  have b: "\<forall>i. Suc k \<le> i \<longrightarrow> carryStep ys k ! i = xs ! i"
    by (simp add: carryStep_other rest)
  have c: "\<forall>i < Suc k. carryStep ys k ! i =
           (if speed (xs ! i) = None \<and> 0 < i
            then (xs ! i)\<lparr>speed := speed (carryStep ys k ! (i - 1)),
                           wayId := wayId (carryStep ys k ! (i - 1))\<rparr>
            else xs ! i)"
  proof (intro allI impI)
    fix i assume i: "i < Suc k"
    show "carryStep ys k ! i =
           (if speed (xs ! i) = None \<and> 0 < i
            then (xs ! i)\<lparr>speed := speed (carryStep ys k ! (i - 1)),
                           wayId := wayId (carryStep ys k ! (i - 1))\<rparr>
            else xs ! i)"
    proof (cases "i = k")
      case True
      have "carryStep ys k ! k =
         (if speed (ys ! k) = None \<and> 0 < k
          then (ys ! k)\<lparr>speed := speed (ys ! (k - 1)), wayId := wayId (ys ! (k - 1))\<rparr>
          else ys ! k)"
        using k len by (simp add: carryStep_at)
      moreover have "ys ! k = xs ! k" by (simp add: rest)
      moreover have "0 < k \<Longrightarrow> carryStep ys k ! (k - 1) = ys ! (k - 1)"
        by (simp add: carryStep_other)
      ultimately show ?thesis using True by auto
    next
      case False
      then have ik: "i < k" using i by simp
      then have "carryStep ys k ! i = ys ! i" by (simp add: carryStep_other)
      moreover have "0 < i \<Longrightarrow> carryStep ys k ! (i - 1) = ys ! (i - 1)"
        using ik by (simp add: carryStep_other)
      ultimately show ?thesis using before [OF ik] by auto
    qed
  qed
  show ?case unfolding step using a b c by blast
qed

text \<open>
  C9. After the carry-forward pass the path has the same points; a point whose speed tag
  was absent and which is not the first has the speed tag and the way id of the point just
  before it, as that point stands after the pass; every other point is unchanged.
\<close>

theorem C9_carry_forward:
  "length (carryForward path) = length path
   \<and> (\<forall>i < length path.
        carryForward path ! i =
          (if speed (path ! i) = None \<and> 0 < i
           then (path ! i)\<lparr>speed := speed (carryForward path ! (i - 1)),
                           wayId := wayId (carryForward path ! (i - 1))\<rparr>
           else path ! i))"
  using carry_prefix_invariant [of "length path" path]
  by (simp add: carryForward_def)

theorem C9_carry_forward_witness:
  "carryForward [\<lparr>lat = 0, lon = 0, speed = None, wayId = Some 7\<rparr>,
                 \<lparr>lat = 0, lon = 1, speed = Some ''50'', wayId = Some 7\<rparr>,
                 \<lparr>lat = 0, lon = 2, speed = None, wayId = Some 8\<rparr>,
                 \<lparr>lat = 0, lon = 3, speed = None, wayId = Some 9\<rparr>]
   = [\<lparr>lat = 0, lon = 0, speed = None, wayId = Some 7\<rparr>,
      \<lparr>lat = 0, lon = 1, speed = Some ''50'', wayId = Some 7\<rparr>,
      \<lparr>lat = 0, lon = 2, speed = Some ''50'', wayId = Some 7\<rparr>,
      \<lparr>lat = 0, lon = 3, speed = Some ''50'', wayId = Some 7\<rparr>]"
  using C9_carry_forward [of
      "[\<lparr>lat = 0, lon = 0, speed = None, wayId = Some 7\<rparr>,
        \<lparr>lat = 0, lon = 1, speed = Some ''50'', wayId = Some 7\<rparr>,
        \<lparr>lat = 0, lon = 2, speed = None, wayId = Some 8\<rparr>,
        \<lparr>lat = 0, lon = 3, speed = None, wayId = Some 9\<rparr>]"]
  by (simp add: carryForward_def carryStep_def upt_rec)

subsection \<open>Path sampling\<close>

text \<open>
  C7. Whenever the start offset is at or beyond the total arc length of the path, and
  whenever the interval is zero or negative, the sampler returns the empty list of samples;
  it has no error result.
\<close>

theorem C7_sampler_empty:
  assumes "startOffsetKm \<ge> totalPathDistance path \<or> distanceKm \<le> 0"
  shows "getSamplePoints path distanceKm startOffsetKm = []"
proof (cases "length path < 2 \<or> distanceKm \<le> 0")
  case True
  then show ?thesis by (simp add: getSamplePoints_def)
next
  case False
  with assms have beyond: "\<not> startOffsetKm < totalPathDistance path" by auto
  have "sampleLoop path (cumulativeDistances path) distanceKm (totalPathDistance path)
          startOffsetKm 1 [] = []"
    using beyond by (subst sampleLoop.simps) simp
  then show ?thesis by (simp add: getSamplePoints_def)
qed

lemma atan2_bounds: "\<bar>atan2 y x\<bar> \<le> pi"
proof -
  have lb: "- (pi / 2) < arctan (y / x)" by (rule arctan_lbound)
  have ub: "arctan (y / x) < pi / 2" by (rule arctan_ubound)
  have neg: "x < 0 \<Longrightarrow> 0 \<le> y \<Longrightarrow> arctan (y / x) \<le> 0"
    by (simp add: divide_le_0_iff)
  have pos: "x < 0 \<Longrightarrow> y < 0 \<Longrightarrow> 0 \<le> arctan (y / x)"
    by (simp add: divide_neg_neg less_imp_le)
  show ?thesis
    unfolding atan2_def using lb ub neg pos pi_gt_zero by (auto simp: abs_le_iff)
qed

lemma haversineDistance_le: "haversineDistance la1 lo1 la2 lo2 \<le> 12742 * pi"
proof -
  have "atan2 y x \<le> pi" for y x using atan2_bounds [of y x] by (simp add: abs_le_iff)
  then show ?thesis by (simp add: haversineDistance_def Let_def)
qed

lemma haversineDistance_pos_meridian:
  assumes "0 < la2 - la1" "la2 - la1 < 360"
  shows "0 < haversineDistance la1 lo la2 lo"
proof -
  define h where "h = (la2 - la1) * pi / 180 / 2"
  have "(la2 - la1) * pi < 360 * pi"
    using assms(2) pi_gt_zero by (intro mult_strict_right_mono) auto
  then have h: "0 < h" "h < pi" using assms(1) pi_gt_zero by (simp_all add: h_def)
  then have s: "0 < sin h" by (rule sin_gt_zero)
  then have a: "0 < sin h * sin h" by simp
  have pos: "0 < atan2 (sqrt (sin h * sin h)) x" for x
  proof -
    have y: "0 < sqrt (sin h * sin h)" using s by simp
    have shift: "0 < arctan z + pi" for z
      using arctan_lbound [of z] pi_gt_zero by linarith
    show ?thesis
      unfolding atan2_def using y shift
      by (auto simp: zero_less_arctan_iff zero_less_divide_iff)
  qed
  show ?thesis
    using pos by (simp add: haversineDistance_def Let_def h_def)
qed


lemma totalPathDistance_pair:
  "totalPathDistance [p, q] = haversineDistance (lat p) (lon p) (lat q) (lon q)"
  by (simp add: totalPathDistance_def cumulativeDistances_def)

theorem C7_sampler_empty_witness:
  "getSamplePoints [\<lparr>lat = 43, lon = -79, speed = None, wayId = Some 1\<rparr>,
                    \<lparr>lat = 44, lon = -79, speed = None, wayId = Some 1\<rparr>] (1 / 40) 60000 = []
   \<and> getSamplePoints [\<lparr>lat = 43, lon = -79, speed = None, wayId = Some 1\<rparr>,
                    \<lparr>lat = 44, lon = -79, speed = None, wayId = Some 1\<rparr>] 0 0 = []"
proof -
  let ?path = "[\<lparr>lat = 43, lon = -79, speed = None, wayId = Some 1\<rparr>,
                \<lparr>lat = 44, lon = -79, speed = None, wayId = Some (1::nat)\<rparr>]"
  have "totalPathDistance ?path \<le> 12742 * pi"
    unfolding totalPathDistance_pair by (rule haversineDistance_le)
  also have "\<dots> \<le> 60000" using pi_less_4 by simp
  finally have far: "60000 \<ge> totalPathDistance ?path \<or> (1 / 40 :: real) \<le> 0" by simp
  have zero: "0 \<ge> totalPathDistance ?path \<or> (0 :: real) \<le> 0" by simp
  show ?thesis
    using C7_sampler_empty [OF far] C7_sampler_empty [OF zero] by simp
qed

lemma sampleStep_extends:
  "sampleStep path cum t i acc = Some (j, pts) \<Longrightarrow> \<exists>ys. pts = acc @ ys"
  by (auto simp: sampleStep_def Let_def split: if_splits prod.splits)

lemma sampleLoop_extends:
  "\<exists>ys. sampleLoop path cum d totalDist t i acc = acc @ ys"
proof (induction path cum d totalDist t i acc rule: sampleLoop.induct)
  case (1 path cum d totalDist t i acc)
  show ?case
  proof (cases "0 < d \<and> t < totalDist")
    case False
    then have "sampleLoop path cum d totalDist t i acc = acc"
      by (subst sampleLoop.simps) auto
    then show ?thesis by simp
  next
    case True
    show ?thesis
    proof (cases "sampleStep path cum t i acc")
      case None
      with True have "sampleLoop path cum d totalDist t i acc = acc"
        by (subst sampleLoop.simps) simp
      then show ?thesis by simp
    next
      case (Some r)
      obtain j pts where r: "r = (j, pts)" by (cases r)
      from Some r sampleStep_extends obtain ys where ys: "pts = acc @ ys" by blast
      from "1.IH" [OF True Some r [symmetric]] obtain zs
        where "sampleLoop path cum d totalDist (t + d) j pts = pts @ zs" by blast
      moreover from True Some r have "sampleLoop path cum d totalDist t i acc
          = sampleLoop path cum d totalDist (t + d) j pts"
        by (subst sampleLoop.simps) simp
      ultimately show ?thesis using ys by simp
    qed
  qed
qed

lemma getSamplePoints_first:
  assumes d: "0 < distanceKm"
    and h: "0 < haversineDistance (lat p) (lon p) (lat q) (lon q)"
  shows "\<exists>rest. getSamplePoints [p, q] distanceKm 0
           = \<lparr>lat = lat p, lon = lon p, speed = speed p, wayId = wayId p\<rparr> # rest"
proof -
  let ?h = "haversineDistance (lat p) (lon p) (lat q) (lon q)"
  let ?p = "\<lparr>lat = lat p, lon = lon p, speed = speed p, wayId = wayId p\<rparr>"
  have cum: "cumulativeDistances [p, q] = [0, ?h]"
    by (simp add: cumulativeDistances_def)
  have adv: "advance [0, ?h] (Suc (Suc 0)) 0 (Suc 0) = Suc 0"
    using h by (subst advance.simps) simp
  have step: "sampleStep [p, q] [0, ?h] 0 1 [] = Some (1, [?p])"
    using h by (simp add: sampleStep_def adv interpolate_def)
  have "sampleLoop [p, q] [0, ?h] distanceKm ?h 0 1 []
      = sampleLoop [p, q] [0, ?h] distanceKm ?h (0 + distanceKm) 1 [?p]"
    using d h step by (subst sampleLoop.simps) simp
  moreover obtain ys where
    "sampleLoop [p, q] [0, ?h] distanceKm ?h (0 + distanceKm) 1 [?p] = [?p] @ ys"
    using sampleLoop_extends by blast
  ultimately show ?thesis
    using d h by (simp add: getSamplePoints_def totalPathDistance_pair cum)
qed

subsection \<open>Worker pool: the invariant\<close>

lemma enumerate_as_map: "enumerate 0 xs = map (\<lambda>i. (i, xs ! i)) [0..<length xs]"
proof (rule nth_equalityI)
  show "length (enumerate 0 xs) = length (map (\<lambda>i. (i, xs ! i)) [0..<length xs])"
    by simp
next
  fix i assume "i < length (enumerate 0 xs)"
  then show "enumerate 0 xs ! i = map (\<lambda>i. (i, xs ! i)) [0..<length xs] ! i"
    by (simp add: nth_enumerate_eq)
qed

lemma poolInv_initial: "poolInv task pts (initialPool pts c)"
  unfolding poolInv_def
  by (rule exI [of _ 0])
    (simp add: poolInvK_def queueInv_def busyInv_def freshInv_def coverInv_def distinctInv_def
      valueInv_def exitInv_def initialPool_def enumerate_as_map)

lemma busy_after_update:
  assumes "w < length ws" "v < length ws" "ws[w := x] ! v = Busy i p"
  shows "(v = w \<and> x = Busy i p) \<or> (v \<noteq> w \<and> ws ! v = Busy i p)"
  using assms by (cases "v = w") simp_all

text \<open>A worker leaves the loop.\<close>

lemma exit_busy:
  assumes "busyInv pts k st" "w < length (workers st)"
  shows "busyInv pts k (st\<lparr>workers := (workers st)[w := Done]\<rparr>)"
  unfolding busyInv_def
proof (intro allI impI)
  fix v i p
  assume v: "v < length (workers (st\<lparr>workers := (workers st)[w := Done]\<rparr>))"
    and b: "workers (st\<lparr>workers := (workers st)[w := Done]\<rparr>) ! v = Busy i p"
  from v have v': "v < length (workers st)" by simp
  from b have "(workers st)[w := Done] ! v = Busy i p" by simp
  from busy_after_update [OF assms(2) v' this] have "workers st ! v = Busy i p" by simp
  with assms(1) v' have "i < k \<and> p = pts ! i \<and> results st ! i = None"
    unfolding busyInv_def by blast
  then show "i < k \<and> p = pts ! i
      \<and> results (st\<lparr>workers := (workers st)[w := Done]\<rparr>) ! i = None"
    by simp
qed

lemma exit_cover:
  assumes "coverInv pts k st" "w < length (workers st)" "workers st ! w = Idle"
  shows "coverInv pts k (st\<lparr>workers := (workers st)[w := Done]\<rparr>)"
  unfolding coverInv_def
proof (intro allI impI)
  fix i assume "i < k"
  with assms(1) have "results st ! i \<noteq> None
      \<or> (\<exists>v < length (workers st). workers st ! v = Busy i (pts ! i))"
    unfolding coverInv_def by blast
  then show "results (st\<lparr>workers := (workers st)[w := Done]\<rparr>) ! i \<noteq> None
      \<or> (\<exists>v < length (workers (st\<lparr>workers := (workers st)[w := Done]\<rparr>)).
            workers (st\<lparr>workers := (workers st)[w := Done]\<rparr>) ! v = Busy i (pts ! i))"
  proof
    assume "results st ! i \<noteq> None"
    then show ?thesis by simp
  next
    assume "\<exists>v < length (workers st). workers st ! v = Busy i (pts ! i)"
    then obtain v where v: "v < length (workers st)" "workers st ! v = Busy i (pts ! i)"
      by blast
    with assms(3) have "v \<noteq> w" by auto
    with v have "v < length (workers (st\<lparr>workers := (workers st)[w := Done]\<rparr>))
        \<and> workers (st\<lparr>workers := (workers st)[w := Done]\<rparr>) ! v = Busy i (pts ! i)"
      by simp
    then show ?thesis by blast
  qed
qed

lemma exit_distinct:
  assumes "distinctInv st" "w < length (workers st)"
  shows "distinctInv (st\<lparr>workers := (workers st)[w := Done]\<rparr>)"
  unfolding distinctInv_def
proof (intro allI impI)
  fix u v i p q
  assume u: "u < length (workers (st\<lparr>workers := (workers st)[w := Done]\<rparr>))"
    and v: "v < length (workers (st\<lparr>workers := (workers st)[w := Done]\<rparr>))"
    and b: "workers (st\<lparr>workers := (workers st)[w := Done]\<rparr>) ! u = Busy i p
        \<and> workers (st\<lparr>workers := (workers st)[w := Done]\<rparr>) ! v = Busy i q"
  from u v have u': "u < length (workers st)" and v': "v < length (workers st)" by simp_all
  from b have bu: "(workers st)[w := Done] ! u = Busy i p"
    and bv: "(workers st)[w := Done] ! v = Busy i q" by simp_all
  from busy_after_update [OF assms(2) u' bu] have "workers st ! u = Busy i p" by simp
  moreover from busy_after_update [OF assms(2) v' bv] have "workers st ! v = Busy i q" by simp
  ultimately show "u = v" using assms(1) u' v' unfolding distinctInv_def by blast
qed

lemma exit_exit:
  assumes "exitInv st" "w < length (workers st)" "isCancelled st \<or> queue st = []"
  shows "exitInv (st\<lparr>workers := (workers st)[w := Done]\<rparr>)"
  unfolding exitInv_def
proof (intro allI impI)
  fix v
  assume "v < length (workers (st\<lparr>workers := (workers st)[w := Done]\<rparr>))"
  then have v: "v < length (workers st)" by simp
  show "(workers (st\<lparr>workers := (workers st)[w := Done]\<rparr>) ! v = Done
          \<longrightarrow> isCancelled (st\<lparr>workers := (workers st)[w := Done]\<rparr>)
              \<or> queue (st\<lparr>workers := (workers st)[w := Done]\<rparr>) = [])
      \<and> (\<forall>e. workers (st\<lparr>workers := (workers st)[w := Done]\<rparr>) ! v = Rejected e
            \<longrightarrow> isCancelled (st\<lparr>workers := (workers st)[w := Done]\<rparr>))"
  proof (cases "v = w")
    case True
    with assms(2,3) show ?thesis by simp
  next
    case False
    with assms(1) v show ?thesis unfolding exitInv_def by simp
  qed
qed

lemma inv_exit:
  assumes inv: "poolInvK task pts k st" and w: "w < length (workers st)"
    and idle: "workers st ! w = Idle" and why: "isCancelled st \<or> queue st = []"
  shows "poolInvK task pts k (st\<lparr>workers := (workers st)[w := Done]\<rparr>)"
proof -
  let ?st = "st\<lparr>workers := (workers st)[w := Done]\<rparr>"
  from inv have q: "queueInv pts k st" and b: "busyInv pts k st" and f: "freshInv pts k st"
    and c: "coverInv pts k st" and d: "distinctInv st" and v: "valueInv task pts st"
    and e: "exitInv st"
    by (simp_all add: poolInvK_def)
  have "queueInv pts k ?st" using q by (simp add: queueInv_def)
  moreover have "busyInv pts k ?st" using b w by (rule exit_busy)
  moreover have "freshInv pts k ?st" using f by (simp add: freshInv_def)
  moreover have "coverInv pts k ?st" using c w idle by (rule exit_cover)
  moreover have "distinctInv ?st" using d w by (rule exit_distinct)
  moreover have "valueInv task pts ?st" using v by (simp add: valueInv_def)
  moreover have "exitInv ?st" using e w why by (rule exit_exit)
  ultimately show ?thesis by (simp add: poolInvK_def)
qed


text \<open>A worker takes the head of the queue.\<close>

lemma queue_head:
  assumes "queueInv pts k st" "queue st = (i, p) # rest"
  shows "k < length pts \<and> i = k \<and> p = pts ! k \<and> queueInv pts (Suc k) (st\<lparr>queue := rest, workers := ws\<rparr>)"
proof -
  from assms have q: "map (\<lambda>i. (i, pts ! i)) [k..<length pts] = (i, p) # rest"
    and le: "k \<le> length pts"
    by (simp_all add: queueInv_def)
  then have lt: "k < length pts" by (cases "k < length pts") auto
  then have "[k..<length pts] = k # [Suc k..<length pts]" by (rule upt_conv_Cons)
  with q have "i = k" "p = pts ! k" "rest = map (\<lambda>i. (i, pts ! i)) [Suc k..<length pts]"
    by auto
  with lt show ?thesis by (simp add: queueInv_def)
qed

lemma claim_busy:
  assumes b: "busyInv pts k st" and f: "freshInv pts k st" and w: "w < length (workers st)"
    and k: "k < length pts"
  shows "busyInv pts (Suc k) (st\<lparr>queue := rest, workers := (workers st)[w := Busy k (pts ! k)]\<rparr>)"
  unfolding busyInv_def
proof (intro allI impI)
  let ?st = "st\<lparr>queue := rest, workers := (workers st)[w := Busy k (pts ! k)]\<rparr>"
  fix v i p
  assume "v < length (workers ?st)" and "workers ?st ! v = Busy i p"
  then have v: "v < length (workers st)"
    and bv: "(workers st)[w := Busy k (pts ! k)] ! v = Busy i p" by simp_all
  from busy_after_update [OF w v bv]
  show "i < Suc k \<and> p = pts ! i \<and> results ?st ! i = None"
  proof
    assume "v = w \<and> Busy k (pts ! k) = Busy i p"
    then have "i = k" "p = pts ! k" by auto
    moreover from f k have "results st ! k = None" by (simp add: freshInv_def)
    ultimately show ?thesis by simp
  next
    assume "v \<noteq> w \<and> workers st ! v = Busy i p"
    with b v have "i < k \<and> p = pts ! i \<and> results st ! i = None"
      unfolding busyInv_def by blast
    then show ?thesis by simp
  qed
qed

lemma claim_cover:
  assumes c: "coverInv pts k st" and w: "w < length (workers st)"
    and idle: "workers st ! w = Idle"
  shows "coverInv pts (Suc k) (st\<lparr>queue := rest, workers := (workers st)[w := Busy k (pts ! k)]\<rparr>)"
  unfolding coverInv_def
proof (intro allI impI)
  let ?st = "st\<lparr>queue := rest, workers := (workers st)[w := Busy k (pts ! k)]\<rparr>"
  fix i assume i: "i < Suc k"
  show "results ?st ! i \<noteq> None
      \<or> (\<exists>v < length (workers ?st). workers ?st ! v = Busy i (pts ! i))"
  proof (cases "i = k")
    case True
    with w have "w < length (workers ?st) \<and> workers ?st ! w = Busy i (pts ! i)" by simp
    then show ?thesis by blast
  next
    case False
    with i have "i < k" by simp
    with c have "results st ! i \<noteq> None
        \<or> (\<exists>v < length (workers st). workers st ! v = Busy i (pts ! i))"
      unfolding coverInv_def by blast
    then show ?thesis
    proof
      assume "results st ! i \<noteq> None"
      then show ?thesis by simp
    next
      assume "\<exists>v < length (workers st). workers st ! v = Busy i (pts ! i)"
      then obtain v where v: "v < length (workers st)" "workers st ! v = Busy i (pts ! i)"
        by blast
      with idle have "v \<noteq> w" by auto
      with v have "v < length (workers ?st) \<and> workers ?st ! v = Busy i (pts ! i)" by simp
      then show ?thesis by blast
    qed
  qed
qed

lemma claim_distinct:
  assumes d: "distinctInv st" and b: "busyInv pts k st" and w: "w < length (workers st)"
  shows "distinctInv (st\<lparr>queue := rest, workers := (workers st)[w := Busy k (pts ! k)]\<rparr>)"
  unfolding distinctInv_def
proof (intro allI impI)
  let ?st = "st\<lparr>queue := rest, workers := (workers st)[w := Busy k (pts ! k)]\<rparr>"
  fix u v i p q
  assume "u < length (workers ?st)" "v < length (workers ?st)"
    and "workers ?st ! u = Busy i p \<and> workers ?st ! v = Busy i q"
  then have u: "u < length (workers st)" and v: "v < length (workers st)"
    and bu: "(workers st)[w := Busy k (pts ! k)] ! u = Busy i p"
    and bv: "(workers st)[w := Busy k (pts ! k)] ! v = Busy i q" by simp_all
  have old: "x < length (workers st) \<Longrightarrow> workers st ! x = Busy j r \<Longrightarrow> j < k" for x j r
    using b unfolding busyInv_def by blast
  from busy_after_update [OF w u bu] busy_after_update [OF w v bv]
  show "u = v"
  proof (elim disjE conjE)
    assume "u = w" "v = w" then show ?thesis by simp
  next
    assume "u = w" "Busy k (pts ! k) = Busy i p" "v \<noteq> w" "workers st ! v = Busy i q"
    with old [OF v] show ?thesis by auto
  next
    assume "v = w" "Busy k (pts ! k) = Busy i q" "u \<noteq> w" "workers st ! u = Busy i p"
    with old [OF u] show ?thesis by auto
  next
    assume "workers st ! u = Busy i p" "workers st ! v = Busy i q"
    with d u v show ?thesis unfolding distinctInv_def by blast
  qed
qed

lemma claim_exit:
  assumes e: "exitInv st" and w: "w < length (workers st)" and q: "queue st \<noteq> []"
  shows "exitInv (st\<lparr>queue := rest, workers := (workers st)[w := Busy k (pts ! k)]\<rparr>)"
  unfolding exitInv_def
proof (intro allI impI)
  let ?st = "st\<lparr>queue := rest, workers := (workers st)[w := Busy k (pts ! k)]\<rparr>"
  fix v assume "v < length (workers ?st)"
  then have v: "v < length (workers st)" by simp
  show "(workers ?st ! v = Done \<longrightarrow> isCancelled ?st \<or> queue ?st = [])
      \<and> (\<forall>e. workers ?st ! v = Rejected e \<longrightarrow> isCancelled ?st)"
  proof (cases "v = w")
    case True
    with w show ?thesis by simp
  next
    case False
    with e v q show ?thesis unfolding exitInv_def by simp
  qed
qed

lemma inv_claim:
  assumes inv: "poolInvK task pts k st" and w: "w < length (workers st)"
    and idle: "workers st ! w = Idle" and q: "queue st = (i, p) # rest"
  shows "poolInvK task pts (Suc k) (st\<lparr>queue := rest, workers := (workers st)[w := Busy i p]\<rparr>)"
proof -
  from inv have qi: "queueInv pts k st" and b: "busyInv pts k st" and f: "freshInv pts k st"
    and c: "coverInv pts k st" and d: "distinctInv st" and v: "valueInv task pts st"
    and e: "exitInv st"
    by (simp_all add: poolInvK_def)
  from queue_head [OF qi q, of "(workers st)[w := Busy i p]"]
  have k: "k < length pts" and ip: "i = k" "p = pts ! k"
    and q': "queueInv pts (Suc k) (st\<lparr>queue := rest, workers := (workers st)[w := Busy i p]\<rparr>)"
    by auto
  let ?st = "st\<lparr>queue := rest, workers := (workers st)[w := Busy k (pts ! k)]\<rparr>"
  have "queueInv pts (Suc k) ?st" using q' ip by simp
  moreover have "busyInv pts (Suc k) ?st" using b f w k by (rule claim_busy)
  moreover have "freshInv pts (Suc k) ?st" using f by (simp add: freshInv_def)
  moreover have "coverInv pts (Suc k) ?st" using c w idle by (rule claim_cover)
  moreover have "distinctInv ?st" using d b w by (rule claim_distinct)
  moreover have "valueInv task pts ?st" using v by (simp add: valueInv_def)
  moreover have "exitInv ?st" using e w by (rule claim_exit) (simp add: q)
  ultimately show ?thesis using ip by (simp add: poolInvK_def)
qed

text \<open>A worker finishes its task.\<close>

lemma complete_busy:
  assumes b: "busyInv pts k st" and d: "distinctInv st" and w: "w < length (workers st)"
    and busy: "workers st ! w = Busy i p" and x: "\<forall>j q. x \<noteq> Busy j q"
  shows "busyInv pts k (st\<lparr>isCancelled := c, results := (results st)[i := Some np],
           progress := n, workers := (workers st)[w := x]\<rparr>)"
  unfolding busyInv_def
proof (intro allI impI)
  let ?st = "st\<lparr>isCancelled := c, results := (results st)[i := Some np],
           progress := n, workers := (workers st)[w := x]\<rparr>"
  fix v j q
  assume "v < length (workers ?st)" and "workers ?st ! v = Busy j q"
  then have v: "v < length (workers st)" and bv: "(workers st)[w := x] ! v = Busy j q"
    by simp_all
  from busy_after_update [OF w v bv] x have vw: "v \<noteq> w" and old: "workers st ! v = Busy j q"
    by auto
  from b v old have j: "j < k" "q = pts ! j" "results st ! j = None"
    unfolding busyInv_def by blast+
  have "j \<noteq> i"
  proof
    assume "j = i"
    with d w v busy old have "w = v" unfolding distinctInv_def by blast
    with vw show False by simp
  qed
  with j show "j < k \<and> q = pts ! j \<and> results ?st ! j = None" by simp
qed

lemma complete_cover:
  assumes c: "coverInv pts k st" and b: "busyInv pts k st" and w: "w < length (workers st)"
    and busy: "workers st ! w = Busy i p" and len: "length (results st) = length pts"
    and k: "k \<le> length pts"
  shows "coverInv pts k (st\<lparr>isCancelled := c', results := (results st)[i := Some np],
           progress := n, workers := (workers st)[w := x]\<rparr>)"
  unfolding coverInv_def
proof (intro allI impI)
  let ?st = "st\<lparr>isCancelled := c', results := (results st)[i := Some np],
           progress := n, workers := (workers st)[w := x]\<rparr>"
  fix j assume j: "j < k"
  show "results ?st ! j \<noteq> None
      \<or> (\<exists>v < length (workers ?st). workers ?st ! v = Busy j (pts ! j))"
  proof (cases "j = i")
    case True
    with j k len have "results ?st ! j = Some np" by simp
    then show ?thesis by simp
  next
    case False
    from c j have "results st ! j \<noteq> None
        \<or> (\<exists>v < length (workers st). workers st ! v = Busy j (pts ! j))"
      unfolding coverInv_def by blast
    then show ?thesis
    proof
      assume "results st ! j \<noteq> None"
      with False show ?thesis by simp
    next
      assume "\<exists>v < length (workers st). workers st ! v = Busy j (pts ! j)"
      then obtain v where v: "v < length (workers st)" "workers st ! v = Busy j (pts ! j)"
        by blast
      with busy False have "v \<noteq> w" by auto
      with v have "v < length (workers ?st) \<and> workers ?st ! v = Busy j (pts ! j)" by simp
      then show ?thesis by blast
    qed
  qed
qed

lemma complete_distinct:
  assumes d: "distinctInv st" and w: "w < length (workers st)" and x: "\<forall>j q. x \<noteq> Busy j q"
  shows "distinctInv (st\<lparr>isCancelled := c, results := rs, progress := n,
           workers := (workers st)[w := x]\<rparr>)"
  unfolding distinctInv_def
proof (intro allI impI)
  let ?st = "st\<lparr>isCancelled := c, results := rs, progress := n,
           workers := (workers st)[w := x]\<rparr>"
  fix u v j p q
  assume "u < length (workers ?st)" "v < length (workers ?st)"
    and "workers ?st ! u = Busy j p \<and> workers ?st ! v = Busy j q"
  then have u: "u < length (workers st)" and v: "v < length (workers st)"
    and bu: "(workers st)[w := x] ! u = Busy j p"
    and bv: "(workers st)[w := x] ! v = Busy j q" by simp_all
  from busy_after_update [OF w u bu] x have "workers st ! u = Busy j p" by auto
  moreover from busy_after_update [OF w v bv] x have "workers st ! v = Busy j q" by auto
  ultimately show "u = v" using d u v unfolding distinctInv_def by blast
qed

lemma complete_value:
  assumes v: "valueInv task pts st" and b: "busyInv pts k st" and w: "w < length (workers st)"
    and busy: "workers st ! w = Busy i p"
  shows "valueInv task pts (st\<lparr>isCancelled := c, results := (results st)[i := Some (fst (task i p))],
           progress := n, workers := ws\<rparr>)"
proof -
  from b w busy have p: "p = pts ! i" unfolding busyInv_def by blast
  from v have len: "length (results st) = length pts"
    and old: "\<And>j. j < length pts \<Longrightarrow>
       results st ! j = None \<or> results st ! j = Some (fst (task j (pts ! j)))"
    by (simp_all add: valueInv_def)
  show ?thesis
    unfolding valueInv_def
  proof (intro conjI allI impI)
    show "length (results (st\<lparr>isCancelled := c,
        results := (results st)[i := Some (fst (task i p))], progress := n, workers := ws\<rparr>))
        = length pts"
      using len by simp
  next
    fix j assume j: "j < length pts"
    show "results (st\<lparr>isCancelled := c, results := (results st)[i := Some (fst (task i p))],
              progress := n, workers := ws\<rparr>) ! j = None
        \<or> results (st\<lparr>isCancelled := c, results := (results st)[i := Some (fst (task i p))],
              progress := n, workers := ws\<rparr>) ! j = Some (fst (task j (pts ! j)))"
    proof (cases "j = i")
      case True
      with j len p show ?thesis by simp
    next
      case False
      with old [OF j] show ?thesis by simp
    qed
  qed
qed

lemma complete_exit:
  assumes e: "exitInv st" and w: "w < length (workers st)"
    and c: "isCancelled st \<longrightarrow> c" and x: "x \<noteq> Done" "\<forall>err. x = Rejected err \<longrightarrow> c"
  shows "exitInv (st\<lparr>isCancelled := c, results := rs, progress := n,
           workers := (workers st)[w := x]\<rparr>)"
  unfolding exitInv_def
proof (intro allI impI)
  let ?st = "st\<lparr>isCancelled := c, results := rs, progress := n,
           workers := (workers st)[w := x]\<rparr>"
  fix v assume "v < length (workers ?st)"
  then have v: "v < length (workers st)" by simp
  show "(workers ?st ! v = Done \<longrightarrow> isCancelled ?st \<or> queue ?st = [])
      \<and> (\<forall>e. workers ?st ! v = Rejected e \<longrightarrow> isCancelled ?st)"
  proof (cases "v = w")
    case True
    with w x show ?thesis by simp
  next
    case False
    with e v c show ?thesis unfolding exitInv_def by auto
  qed
qed

lemma inv_complete:
  assumes inv: "poolInvK task pts k st" and w: "w < length (workers st)"
    and busy: "workers st ! w = Busy i p"
    and c: "isCancelled st \<longrightarrow> c"
    and x: "\<forall>j q. x \<noteq> Busy j q" "x \<noteq> Done" "\<forall>err. x = Rejected err \<longrightarrow> c"
  shows "poolInvK task pts k (st\<lparr>isCancelled := c,
           results := (results st)[i := Some (fst (task i p))],
           progress := n, workers := (workers st)[w := x]\<rparr>)"
proof -
  let ?st = "st\<lparr>isCancelled := c, results := (results st)[i := Some (fst (task i p))],
           progress := n, workers := (workers st)[w := x]\<rparr>"
  from inv have qi: "queueInv pts k st" and b: "busyInv pts k st" and f: "freshInv pts k st"
    and cv: "coverInv pts k st" and d: "distinctInv st" and v: "valueInv task pts st"
    and e: "exitInv st"
    by (simp_all add: poolInvK_def)
  from b w busy have ik: "i < k" unfolding busyInv_def by blast
  from v have len: "length (results st) = length pts" by (simp add: valueInv_def)
  from qi have k: "k \<le> length pts" by (simp add: queueInv_def)
  have "queueInv pts k ?st" using qi by (simp add: queueInv_def)
  moreover have "busyInv pts k ?st" using b d w busy x(1) by (rule complete_busy)
  moreover have "freshInv pts k ?st" using f ik by (simp add: freshInv_def)
  moreover have "coverInv pts k ?st" using cv b w busy len k by (rule complete_cover)
  moreover have "distinctInv ?st" using d w x(1) by (rule complete_distinct)
  moreover have "valueInv task pts ?st" using v b w busy by (rule complete_value)
  moreover have "exitInv ?st" using e w c x(2,3) by (rule complete_exit)
  ultimately show ?thesis by (simp add: poolInvK_def)
qed

lemma inv_stop:
  assumes "poolInvK task pts k st"
  shows "poolInvK task pts k (st\<lparr>isCancelled := True\<rparr>)"
  using assms
  by (simp add: poolInvK_def queueInv_def busyInv_def freshInv_def coverInv_def
      distinctInv_def valueInv_def exitInv_def)

lemma poolInv_workerStep:
  assumes "poolInv task pts st"
  shows "poolInv task pts (workerStep task w st)"
proof -
  from assms obtain k where inv: "poolInvK task pts k st" unfolding poolInv_def by blast
  show ?thesis
  proof (cases "w < length (workers st)")
    case False
    with assms show ?thesis by (simp add: workerStep_def)
  next
    case w: True
    show ?thesis
    proof (cases "workers st ! w")
      case Idle
      show ?thesis
      proof (cases "isCancelled st \<or> queue st = []")
        case True
        from inv_exit [OF inv w Idle True]
        have "poolInvK task pts k (workerStep task w st)"
          using w Idle True by (auto simp: workerStep_def)
        then show ?thesis unfolding poolInv_def by blast
      next
        case False
        then obtain i p rest where q: "queue st = (i, p) # rest"
          by (cases "queue st") auto
        from inv_claim [OF inv w Idle q]
        have "poolInvK task pts (Suc k) (workerStep task w st)"
          using w Idle False q by (simp add: workerStep_def)
        then show ?thesis unfolding poolInv_def by blast
      qed
    next
      case (Busy i p)
      obtain np thrown where t: "task i p = (np, thrown)" by (cases "task i p")
      show ?thesis
      proof (cases thrown)
        case None
        from inv_complete [OF inv w Busy, of "isCancelled st" Idle "progress st + 1"]
        have "poolInvK task pts k (workerStep task w st)"
          using w Busy t None by (simp add: workerStep_def)
        then show ?thesis unfolding poolInv_def by blast
      next
        case (Some err)
        from inv_complete [OF inv w Busy, of True "Rejected err" "progress st + 1"]
        have "poolInvK task pts k (workerStep task w st)"
          using w Busy t Some by (simp add: workerStep_def)
        then show ?thesis unfolding poolInv_def by blast
      qed
    next
      case Done
      with assms w show ?thesis by (simp add: workerStep_def)
    next
      case (Rejected err)
      with assms w show ?thesis by (simp add: workerStep_def)
    qed
  qed
qed

lemma poolInv_applyEvent:
  assumes "poolInv task pts st"
  shows "poolInv task pts (applyEvent task st ev)"
proof (cases ev)
  case (Step w)
  with assms show ?thesis by (simp add: applyEvent_def poolInv_workerStep)
next
  case StopClick
  with assms show ?thesis unfolding poolInv_def applyEvent_def by (auto intro: inv_stop)
qed

lemma poolInv_runEvents:
  "poolInv task pts st \<Longrightarrow> poolInv task pts (runEvents task sched st)"
  unfolding runEvents_def
  by (induction sched arbitrary: st) (simp_all add: poolInv_applyEvent)

lemma poolInv_reachable:
  "poolInv task pts (runEvents task sched (initialPool pts c))"
  by (rule poolInv_runEvents) (rule poolInv_initial)

subsection \<open>Worker pool: every worker settles\<close>

lemma workerStep_workers_length [simp]:
  "length (workers (workerStep task v st)) = length (workers st)"
  by (simp add: workerStep_def split: worker_state.splits list.splits prod.splits option.splits)

lemma applyEvent_workers_length [simp]:
  "length (workers (applyEvent task st ev)) = length (workers st)"
  by (cases ev) (simp_all add: applyEvent_def)

lemma runEvents_workers_length [simp]:
  "length (workers (runEvents task sched st)) = length (workers st)"
  unfolding runEvents_def by (induction sched arbitrary: st) simp_all

lemma runEvents_append:
  "runEvents task (xs @ ys) st = runEvents task ys (runEvents task xs st)"
  by (simp add: runEvents_def)

lemma runEvents_Cons:
  "runEvents task (ev # evs) st = runEvents task evs (applyEvent task st ev)"
  by (simp add: runEvents_def)

lemma runEvents_Nil: "runEvents task [] st = st"
  by (simp add: runEvents_def)

lemma potential_other:
  "potential (workerStep task v st) w \<le> potential st w"
proof (cases "v < length (workers st)")
  case False
  then show ?thesis by (simp add: workerStep_def)
next
  case v: True
  show ?thesis
  proof (cases "w < length (workers st)")
    case False
    then show ?thesis by (simp add: potential_def)
  next
    case w: True
    show ?thesis
    proof (cases "workers st ! v")
      case Idle
      then show ?thesis
        using v w
        by (cases "queue st"; cases "v = w")
          (auto simp: workerStep_def potential_def split: worker_state.splits)
    next
      case (Busy i p)
      obtain np thrown where "task i p = (np, thrown)" by (cases "task i p")
      with Busy show ?thesis
        using v w
        by (cases thrown; cases "v = w")
          (auto simp: workerStep_def potential_def split: worker_state.splits)
    next
      case Done
      then show ?thesis using v by (simp add: workerStep_def)
    next
      case (Rejected e)
      then show ?thesis using v by (simp add: workerStep_def)
    qed
  qed
qed

lemma potential_own:
  assumes "w < length (workers st)"
  shows "potential (workerStep task w st) w \<le> potential st w - 1"
proof (cases "workers st ! w")
  case Idle
  then show ?thesis
    using assms by (cases "queue st") (auto simp: workerStep_def potential_def)
next
  case (Busy i p)
  obtain np thrown where "task i p = (np, thrown)" by (cases "task i p")
  with Busy show ?thesis
    using assms by (cases thrown) (auto simp: workerStep_def potential_def)
next
  case Done
  then show ?thesis using assms by (simp add: workerStep_def potential_def)
next
  case (Rejected e)
  then show ?thesis using assms by (simp add: workerStep_def potential_def)
qed

lemma potential_steps:
  "potential (runEvents task (map Step vs) st) w \<le> potential st w"
proof (induction vs arbitrary: st)
  case Nil
  then show ?case by (simp add: runEvents_Nil)
next
  case (Cons v vs)
  have "potential (runEvents task (map Step vs) (workerStep task v st)) w
      \<le> potential (workerStep task v st) w" by (rule Cons.IH)
  also have "\<dots> \<le> potential st w" by (rule potential_other)
  finally show ?case by (simp add: runEvents_Cons applyEvent_def)
qed

lemma potential_round:
  assumes "w \<in> set vs" "w < length (workers st)"
  shows "potential (runEvents task (map Step vs) st) w \<le> potential st w - 1"
  using assms
proof (induction vs arbitrary: st)
  case Nil
  then show ?case by simp
next
  case (Cons v vs)
  show ?case
  proof (cases "v = w")
    case True
    have "potential (runEvents task (map Step vs) (workerStep task w st)) w
        \<le> potential (workerStep task w st) w" by (rule potential_steps)
    also have "\<dots> \<le> potential st w - 1" using Cons.prems(2) by (rule potential_own)
    finally show ?thesis using True by (simp add: runEvents_Cons applyEvent_def)
  next
    case False
    with Cons.prems have "w \<in> set vs" by simp
    moreover have "w < length (workers (workerStep task v st))" using Cons.prems(2) by simp
    ultimately have "potential (runEvents task (map Step vs) (workerStep task v st)) w
        \<le> potential (workerStep task v st) w - 1" by (rule Cons.IH)
    also have "\<dots> \<le> potential st w - 1"
      using potential_other [of task v st w] by simp
    finally show ?thesis by (simp add: runEvents_Cons applyEvent_def)
  qed
qed

lemma potential_rounds:
  assumes "w < length (workers st)"
  shows "potential (runEvents task
           (concat (replicate m (map Step [0..<length (workers st)]))) st) w
         \<le> potential st w - m"
  using assms
proof (induction m arbitrary: st)
  case 0
  then show ?case by (simp add: runEvents_Nil)
next
  case (Suc m)
  let ?round = "map Step [0..<length (workers st)]"
  let ?st = "runEvents task ?round st"
  have len: "length (workers ?st) = length (workers st)" by simp
  have one: "potential ?st w \<le> potential st w - 1"
    using Suc.prems by (intro potential_round) simp_all
  have "potential (runEvents task
           (concat (replicate m (map Step [0..<length (workers ?st)]))) ?st) w
         \<le> potential ?st w - m"
    using Suc.prems by (intro Suc.IH) simp
  with one have "potential (runEvents task (concat (replicate m ?round)) ?st) w
         \<le> potential st w - Suc m"
    unfolding len by simp
  then show ?case by (simp add: runEvents_append)
qed

lemma potential_bound: "potential st w \<le> 2 * length (queue st) + 2"
  by (simp add: potential_def split: worker_state.splits)

lemma potential_zero_settled:
  assumes "w < length (workers st)" "potential st w = 0"
  shows "settled (workers st ! w)"
  using assms by (simp add: potential_def settled_def split: worker_state.splits)

lemma drain_settles:
  assumes "w < length (workers st)"
  shows "settled (workers (runEvents task (drainSchedule st) st) ! w)"
proof -
  let ?st = "runEvents task (drainSchedule st) st"
  have "potential ?st w \<le> potential st w - (2 * length (queue st) + 2)"
    unfolding drainSchedule_def using assms by (rule potential_rounds)
  with potential_bound [of st w] have "potential ?st w = 0" by simp
  moreover have "w < length (workers ?st)" using assms by simp
  ultimately show ?thesis by (rule potential_zero_settled [rotated])
qed

lemma allSettled_settled:
  assumes "w < length (workers st)"
  shows "settled (workers (allSettled task sched st) ! w)"
  unfolding allSettled_def Let_def
  using assms by (intro drain_settles) simp

lemma allSettled_reachable:
  "allSettled task sched st = runEvents task (sched @ drainSchedule (runEvents task sched st)) st"
  by (simp add: allSettled_def Let_def runEvents_append)

subsection \<open>Worker pool: the results of a run\<close>

lemma update_keeps_filled:
  "rs ! i = Some y \<Longrightarrow> \<exists>z. rs[k := Some x] ! i = Some z"
  by (cases "k < length rs") (auto simp: nth_list_update list_update_beyond)

lemma workerStep_keeps_filled:
  "results st ! i \<noteq> None \<Longrightarrow> results (workerStep task w st) ! i \<noteq> None"
  by (auto simp: workerStep_def
      split: worker_state.splits list.splits prod.splits option.splits
      intro: update_keeps_filled)

lemma runEvents_keeps_filled:
  "results st ! i \<noteq> None \<Longrightarrow> results (runEvents task sched st) ! i \<noteq> None"
proof (induction sched arbitrary: st)
  case Nil
  then show ?case by (simp add: runEvents_Nil)
next
  case (Cons ev evs)
  have "results (applyEvent task st ev) ! i \<noteq> None"
    using Cons.prems by (cases ev) (simp_all add: applyEvent_def workerStep_keeps_filled)
  then show ?case unfolding runEvents_Cons by (rule Cons.IH)
qed

lemma cancelled_keeps_queue:
  "isCancelled st \<Longrightarrow> queue (applyEvent task st ev) = queue st
     \<and> isCancelled (applyEvent task st ev)"
  by (cases ev)
    (auto simp: applyEvent_def workerStep_def
      split: worker_state.splits list.splits prod.splits option.splits)

lemma complete_run_results:
  assumes inv: "poolInv task pts st"
    and settled: "\<forall>w < length (workers st). settled (workers st ! w)"
    and some: "0 < length (workers st)" and nc: "\<not> isCancelled st"
  shows "results st = map (\<lambda>i. Some (fst (task i (pts ! i)))) [0..<length pts]"
proof -
  from inv obtain k where k: "poolInvK task pts k st" unfolding poolInv_def by blast
  then have q: "queueInv pts k st" and c: "coverInv pts k st" and v: "valueInv task pts st"
    and e: "exitInv st"
    by (simp_all add: poolInvK_def)
  from settled some have "settled (workers st ! 0)" by blast
  then have "workers st ! 0 = Done \<or> (\<exists>err. workers st ! 0 = Rejected err)"
    by (cases "workers st ! 0") (simp_all add: settled_def)
  with e some nc have "queue st = []" unfolding exitInv_def by blast
  with q have kn: "k = length pts" by (auto simp: queueInv_def)
  have filled: "results st ! i \<noteq> None" if "i < length pts" for i
  proof -
    from c that kn have "results st ! i \<noteq> None
        \<or> (\<exists>w < length (workers st). workers st ! w = Busy i (pts ! i))"
      unfolding coverInv_def by blast
    moreover have "\<not> (\<exists>w < length (workers st). workers st ! w = Busy i (pts ! i))"
    proof
      assume "\<exists>w < length (workers st). workers st ! w = Busy i (pts ! i)"
      then obtain w where "w < length (workers st)" "workers st ! w = Busy i (pts ! i)"
        by blast
      with settled show False by (auto simp: settled_def)
    qed
    ultimately show ?thesis by blast
  qed
  show ?thesis
  proof (rule nth_equalityI)
    show "length (results st) = length (map (\<lambda>i. Some (fst (task i (pts ! i)))) [0..<length pts])"
      using v by (simp add: valueInv_def)
  next
    fix i assume "i < length (results st)"
    with v have i: "i < length pts" by (simp add: valueInv_def)
    with v have "results st ! i = None \<or> results st ! i = Some (fst (task i (pts ! i)))"
      by (simp add: valueInv_def)
    with filled [OF i] i
    show "results st ! i = map (\<lambda>i. Some (fst (task i (pts ! i)))) [0..<length pts] ! i"
      by auto
  qed
qed

lemma finalPoints_indices:
  "finalPoints rs = map (\<lambda>i. the (rs ! i)) (filter (\<lambda>i. rs ! i \<noteq> None) [0..<length rs])"
proof -
  have "finalPoints (map ((!) rs) [0..<length rs])
      = map (\<lambda>i. the (rs ! i)) (filter (\<lambda>i. rs ! i \<noteq> None) [0..<length rs])"
    by (simp add: finalPoints_def List.map_filter_def filter_map comp_def)
  then show ?thesis by (simp add: map_nth)
qed

lemma finalPoints_length: "length (finalPoints rs) \<le> length rs"
  by (simp add: finalPoints_def List.map_filter_def)

lemma finalPoints_all: "finalPoints (map Some xs) = xs"
  by (simp add: finalPoints_def List.map_filter_def filter_map comp_def)

lemma runTask_location: "location (fst (runTask ctry thr pts responses i p)) = p"
  by (simp add: runTask_def failedPoint_def Let_def split: sum.splits)

lemma allSettled_inv: "poolInv task pts (allSettled task sched (initialPool pts c))"
  unfolding allSettled_reachable by (rule poolInv_reachable)

subsection \<open>Worker pool: the claims\<close>

lemma finalPoints_of_valueInv:
  assumes "valueInv task pts st"
  shows "finalPoints (results st)
           = map (\<lambda>i. fst (task i (pts ! i)))
               (filter (\<lambda>i. results st ! i \<noteq> None) [0..<length pts])"
proof -
  from assms have len: "length (results st) = length pts"
    and val: "\<And>i. i < length pts \<Longrightarrow>
        results st ! i = None \<or> results st ! i = Some (fst (task i (pts ! i)))"
    by (simp_all add: valueInv_def)
  have "map (\<lambda>i. the (results st ! i)) (filter (\<lambda>i. results st ! i \<noteq> None) [0..<length pts])
      = map (\<lambda>i. fst (task i (pts ! i)))
          (filter (\<lambda>i. results st ! i \<noteq> None) [0..<length pts])"
  proof (rule map_cong [OF refl])
    fix i assume "i \<in> set (filter (\<lambda>i. results st ! i \<noteq> None) [0..<length pts])"
    then have "i < length pts" "results st ! i \<noteq> None" by simp_all
    with val [of i] show "the (results st ! i) = fst (task i (pts ! i))" by auto
  qed
  then show ?thesis by (simp add: finalPoints_indices len)
qed

lemma allSettled_valueInv:
  "valueInv task pts (allSettled task sched (initialPool pts c))"
  using allSettled_inv [of task pts sched c] unfolding poolInv_def poolInvK_def by blast

lemma allSettled_complete:
  assumes "0 < c" "\<not> isCancelled (allSettled task sched (initialPool pts c))"
  shows "results (allSettled task sched (initialPool pts c))
           = map (\<lambda>i. Some (fst (task i (pts ! i)))) [0..<length pts]"
proof -
  let ?final = "allSettled task sched (initialPool pts c)"
  have wl: "length (workers ?final) = c"
    by (simp add: allSettled_reachable initialPool_def)
  have "poolInv task pts ?final" by (rule allSettled_inv)
  moreover have "\<forall>w < length (workers ?final). settled (workers ?final ! w)"
  proof (intro allI impI)
    fix w assume "w < length (workers ?final)"
    with wl have "w < length (workers (initialPool pts c))" by (simp add: initialPool_def)
    then show "settled (workers ?final ! w)" by (rule allSettled_settled)
  qed
  moreover have "0 < length (workers ?final)" using assms(1) wl by simp
  ultimately show ?thesis using assms(2) by (rule complete_run_results)
qed

lemma capPoints_length: "length (capPoints m samples) \<le> m"
  by (simp add: capPoints_def)

lemma analyzeSamples_bound:
  assumes "analyzedPoints ui = []"
  shows "length (analyzedPoints (analyzeSamples cfg responses sched samples ui)) \<le> maxPoints cfg"
proof (cases "capPoints (maxPoints cfg) samples = []")
  case True
  with assms show ?thesis by (simp add: analyzeSamples_def)
next
  case False
  let ?pts = "capPoints (maxPoints cfg) samples"
  let ?task = "runTask (country cfg) (confidenceThreshold cfg) ?pts responses"
  let ?final = "allSettled ?task sched (initialPool ?pts (concurrency cfg))"
  have "length (finalPoints (results ?final)) \<le> length (results ?final)"
    by (rule finalPoints_length)
  also have "\<dots> = length ?pts"
    using allSettled_valueInv [of ?task ?pts sched "concurrency cfg"] by (simp add: valueInv_def)
  also have "\<dots> \<le> maxPoints cfg" by (rule capPoints_length)
  finally show ?thesis using False by (simp add: analyzeSamples_def Let_def)
qed

lemma catchError_points: "analyzedPoints (catchError msg ui) = analyzedPoints ui"
  by (simp add: catchError_def)

text \<open>
  C2. In every state a schedule can reach, the results array has one slot per sample, and
  slot \<open>i\<close> is either still empty or holds the point computed from sample \<open>i\<close>, whose
  location is that sample; a filled slot never changes again. A task in flight is held by
  one worker only, belongs to the sample of its own index, and its slot is still empty, so
  each slot is written once, by the worker that took the task. The points kept at the end
  are in sample order, and a run that ends without cancellation with at least one worker
  has filled every slot.
\<close>

theorem C2_slot_matches_sample:
  "(let task = runTask ctry thr pts responses;
        st = runEvents task sched (initialPool pts c);
        final = allSettled task sched (initialPool pts c)
    in length (results st) = length pts
       \<and> (\<forall>i < length pts.
             (results st ! i = None \<or> results st ! i = Some (fst (task i (pts ! i))))
             \<and> location (fst (task i (pts ! i))) = pts ! i
             \<and> (\<forall>more. results st ! i \<noteq> None
                    \<longrightarrow> results (runEvents task more st) ! i = results st ! i))
       \<and> (\<forall>w < length (workers st). \<forall>i p. workers st ! w = Busy i p \<longrightarrow>
             i < length pts \<and> p = pts ! i \<and> results st ! i = None
             \<and> (\<forall>v < length (workers st). \<forall>q. workers st ! v = Busy i q \<longrightarrow> v = w))
       \<and> finalPoints (results st)
           = map (\<lambda>i. fst (task i (pts ! i)))
               (filter (\<lambda>i. results st ! i \<noteq> None) [0..<length pts])
       \<and> (0 < c \<and> \<not> isCancelled final
            \<longrightarrow> results final = map (\<lambda>i. Some (fst (task i (pts ! i)))) [0..<length pts]))"
proof -
  define task where "task = runTask ctry thr pts responses"
  define st where "st = runEvents task sched (initialPool pts c)"
  define final where "final = allSettled task sched (initialPool pts c)"
  have "poolInv task pts st" unfolding st_def by (rule poolInv_reachable)
  then obtain k where "poolInvK task pts k st" unfolding poolInv_def by blast
  then have q: "queueInv pts k st" and b: "busyInv pts k st" and d: "distinctInv st"
    and v: "valueInv task pts st"
    by (simp_all add: poolInvK_def)
  from v have len: "length (results st) = length pts"
    and val: "\<And>i. i < length pts \<Longrightarrow>
        results st ! i = None \<or> results st ! i = Some (fst (task i (pts ! i)))"
    by (simp_all add: valueInv_def)
  have loc: "location (fst (task i (pts ! i))) = pts ! i" for i
    unfolding task_def by (rule runTask_location)
  have stable: "results (runEvents task more st) ! i = results st ! i"
    if i: "i < length pts" and filled: "results st ! i \<noteq> None" for i more
  proof -
    have "poolInv task pts (runEvents task more st)"
      unfolding st_def runEvents_append [symmetric] by (rule poolInv_reachable)
    then have "valueInv task pts (runEvents task more st)"
      unfolding poolInv_def poolInvK_def by blast
    with i have "results (runEvents task more st) ! i = None
        \<or> results (runEvents task more st) ! i = Some (fst (task i (pts ! i)))"
      by (simp add: valueInv_def)
    moreover from filled have "results (runEvents task more st) ! i \<noteq> None"
      by (rule runEvents_keeps_filled)
    moreover from val [OF i] filled have "results st ! i = Some (fst (task i (pts ! i)))"
      by simp
    ultimately show ?thesis by simp
  qed
  have slots: "\<forall>i < length pts.
             (results st ! i = None \<or> results st ! i = Some (fst (task i (pts ! i))))
             \<and> location (fst (task i (pts ! i))) = pts ! i
             \<and> (\<forall>more. results st ! i \<noteq> None
                    \<longrightarrow> results (runEvents task more st) ! i = results st ! i)"
    using val loc stable by blast
  have busy: "\<forall>w < length (workers st). \<forall>i p. workers st ! w = Busy i p \<longrightarrow>
             i < length pts \<and> p = pts ! i \<and> results st ! i = None
             \<and> (\<forall>v < length (workers st). \<forall>q. workers st ! v = Busy i q \<longrightarrow> v = w)"
  proof (intro allI impI)
    fix w i p
    assume w: "w < length (workers st)" and bw: "workers st ! w = Busy i p"
    from b w bw have "i < k" "p = pts ! i" "results st ! i = None"
      unfolding busyInv_def by blast+
    moreover from q have "k \<le> length pts" by (simp add: queueInv_def)
    moreover have "\<forall>v < length (workers st). \<forall>q. workers st ! v = Busy i q \<longrightarrow> v = w"
      using d w bw unfolding distinctInv_def by blast
    ultimately show "i < length pts \<and> p = pts ! i \<and> results st ! i = None
             \<and> (\<forall>v < length (workers st). \<forall>q. workers st ! v = Busy i q \<longrightarrow> v = w)"
      by simp
  qed
  have order: "finalPoints (results st)
           = map (\<lambda>i. fst (task i (pts ! i)))
               (filter (\<lambda>i. results st ! i \<noteq> None) [0..<length pts])"
    using v by (rule finalPoints_of_valueInv)
  have complete: "0 < c \<and> \<not> isCancelled final
            \<longrightarrow> results final = map (\<lambda>i. Some (fst (task i (pts ! i)))) [0..<length pts]"
    unfolding final_def by (auto intro: allSettled_complete)
  from len slots busy order complete show ?thesis
    unfolding Let_def task_def [symmetric] st_def [symmetric] final_def [symmetric]
    by blast
qed


lemmas pool_eval = runEvents_def applyEvent_def workerStep_def initialPool_def runTask_def
  failedPoint_def isFatal_def toLowerCase_def toLowerChar_def finalDetectedSpeed_def
  rawDetectedSpeed_def resultConfidence_def minSpeed_def maxSpeed_def computeDiscrepancy_def
  matchDigits_def isDigit_def parseInt_def osmSpeedInKmh_def detectedSpeedInKmh_def mphFactor_def
  placeholderImage_def numeral_2_eq_2

theorem C2_slot_matches_sample_witness:
  "workers (runEvents
      (runTask ''CAN'' (3 / 10)
         [\<lparr>lat = 43, lon = -79, speed = Some ''50'', wayId = Some 1\<rparr>,
          \<lparr>lat = 44, lon = -79, speed = Some ''50'', wayId = Some 1\<rparr>]
         (\<lambda>i. if i = 0
               then \<lparr>imageResult = Inr ''AAAA'', metadataResult = Inr ''2021-06'',
                     analysis = Inr (Some \<lparr>speed_limit = Some 60, confidence = 9 / 10\<rparr>)\<rparr>
               else \<lparr>imageResult = Inl ''Street View imagery not available at this location.'',
                     metadataResult = Inl ''Metadata status: ZERO_RESULTS. No imagery found.'',
                     analysis = Inr None\<rparr>))
      [Step 0, Step 1, Step 1]
      (initialPool
         [\<lparr>lat = 43, lon = -79, speed = Some ''50'', wayId = Some 1\<rparr>,
          \<lparr>lat = 44, lon = -79, speed = Some ''50'', wayId = Some 1\<rparr>] 2))
   = [Busy 0 \<lparr>lat = 43, lon = -79, speed = Some ''50'', wayId = Some 1\<rparr>, Idle]
   \<and> results (runEvents
      (runTask ''CAN'' (3 / 10)
         [\<lparr>lat = 43, lon = -79, speed = Some ''50'', wayId = Some 1\<rparr>,
          \<lparr>lat = 44, lon = -79, speed = Some ''50'', wayId = Some 1\<rparr>]
         (\<lambda>i. if i = 0
               then \<lparr>imageResult = Inr ''AAAA'', metadataResult = Inr ''2021-06'',
                     analysis = Inr (Some \<lparr>speed_limit = Some 60, confidence = 9 / 10\<rparr>)\<rparr>
               else \<lparr>imageResult = Inl ''Street View imagery not available at this location.'',
                     metadataResult = Inl ''Metadata status: ZERO_RESULTS. No imagery found.'',
                     analysis = Inr None\<rparr>))
      [Step 0, Step 1, Step 1]
      (initialPool
         [\<lparr>lat = 43, lon = -79, speed = Some ''50'', wayId = Some 1\<rparr>,
          \<lparr>lat = 44, lon = -79, speed = Some ''50'', wayId = Some 1\<rparr>] 2))
   = [None,
      Some \<lparr>ap_id = (44, -79),
            location = \<lparr>lat = 44, lon = -79, speed = Some ''50'', wayId = Some 1\<rparr>,
            osmSpeed = Some ''50'', detectedSpeed = None, ap_confidence = None,
            isDiscrepancy = False, imageUrl = placeholderImage,
            heading = forwardHeading
                        [\<lparr>lat = 43, lon = -79, speed = Some ''50'', wayId = Some 1\<rparr>,
                         \<lparr>lat = 44, lon = -79, speed = Some ''50'', wayId = Some 1\<rparr>] 1
                        \<lparr>lat = 44, lon = -79, speed = Some ''50'', wayId = Some 1\<rparr>,
            ap_wayId = Some 1, imageDate = None\<rparr>]"
proof -
  let ?pts = "[\<lparr>lat = 43, lon = -79, speed = Some ''50'', wayId = Some 1\<rparr>,
               \<lparr>lat = 44, lon = -79, speed = Some ''50'', wayId = Some (1::nat)\<rparr>]"
  let ?responses = "\<lambda>i::nat. if i = 0
               then \<lparr>imageResult = Inr ''AAAA'', metadataResult = Inr ''2021-06'',
                     analysis = Inr (Some \<lparr>speed_limit = Some 60, confidence = 9 / 10\<rparr>)\<rparr>
               else \<lparr>imageResult = Inl ''Street View imagery not available at this location.'',
                     metadataResult = Inl ''Metadata status: ZERO_RESULTS. No imagery found.'',
                     analysis = Inr None\<rparr>"
  let ?task = "runTask ''CAN'' (3 / 10) ?pts ?responses"
  let ?st = "runEvents ?task [Step 0, Step 1, Step 1] (initialPool ?pts 2)"
  have ws: "workers ?st = [Busy 0 (?pts ! 0), Idle]"
    by (simp add: pool_eval)
  from C2_slot_matches_sample [of "''CAN''" "3 / 10" ?pts ?responses "[Step 0, Step 1, Step 1]" 2]
  have len: "length (results ?st) = length ?pts"
    and slots: "\<forall>i < length ?pts.
        (results ?st ! i = None \<or> results ?st ! i = Some (fst (?task i (?pts ! i))))
        \<and> location (fst (?task i (?pts ! i))) = ?pts ! i
        \<and> (\<forall>more. results ?st ! i \<noteq> None
               \<longrightarrow> results (runEvents ?task more ?st) ! i = results ?st ! i)"
    and busy: "\<forall>w < length (workers ?st). \<forall>i p. workers ?st ! w = Busy i p \<longrightarrow>
        i < length ?pts \<and> p = ?pts ! i \<and> results ?st ! i = None
        \<and> (\<forall>v < length (workers ?st). \<forall>q. workers ?st ! v = Busy i q \<longrightarrow> v = w)"
    unfolding Let_def by blast+
  have "0 < length (workers ?st)" and "workers ?st ! 0 = Busy 0 (?pts ! 0)"
    using ws by simp_all
  with busy have r0: "results ?st ! 0 = None" by blast
  have "1 < length ?pts" by simp
  with slots have "results ?st ! 1 = None \<or> results ?st ! 1 = Some (fst (?task 1 (?pts ! 1)))"
    by blast
  moreover have "results ?st ! 1 \<noteq> None" by (simp add: pool_eval)
  ultimately have r1: "results ?st ! 1 = Some (fst (?task 1 (?pts ! 1)))" by blast
  have "results ?st = [results ?st ! 0, results ?st ! 1]"
    using len by (intro nth_equalityI) (auto simp: less_Suc_eq numeral_2_eq_2)
  with r0 r1 have "results ?st = [None, Some (fst (?task 1 (?pts ! 1)))]" by simp
  moreover have "fst (?task 1 (?pts ! 1)) =
      \<lparr>ap_id = (44, -79),
       location = \<lparr>lat = 44, lon = -79, speed = Some ''50'', wayId = Some 1\<rparr>,
       osmSpeed = Some ''50'', detectedSpeed = None, ap_confidence = None,
       isDiscrepancy = False, imageUrl = placeholderImage,
       heading = forwardHeading ?pts 1 \<lparr>lat = 44, lon = -79, speed = Some ''50'', wayId = Some 1\<rparr>,
       ap_wayId = Some 1, imageDate = None\<rparr>"
    by (simp add: runTask_def failedPoint_def)
  ultimately show ?thesis using ws by simp
qed

text \<open>
  C10. When the sampler returns more points than \<open>maxPoints\<close>, the tasks are the first
  \<open>maxPoints\<close> samples. The analysed points of a run that starts with no points are at
  most \<open>maxPoints\<close>, each computed from one of these samples, in path order; a run that
  ends without cancellation with at least one worker has analysed all of them. No run of
  the handler that passes the input checks leaves more than \<open>maxPoints\<close> points.
\<close>

theorem C10_cap_on_points:
  assumes more: "maxPoints cfg < length samples" and fresh: "analyzedPoints ui = []"
  shows "(let pts = take (maxPoints cfg) samples;
              task = runTask (country cfg) (confidenceThreshold cfg) pts responses;
              out = analyzeSamples cfg responses sched samples ui
          in capPoints (maxPoints cfg) samples = pts
             \<and> length pts = maxPoints cfg
             \<and> length (analyzedPoints out) \<le> maxPoints cfg
             \<and> (\<exists>is. sorted_wrt (<) is \<and> (\<forall>i \<in> set is. i < maxPoints cfg)
                   \<and> analyzedPoints out = map (\<lambda>i. fst (task i (samples ! i))) is)
             \<and> (0 < concurrency cfg \<and> \<not> isCancelledRef out
                  \<longrightarrow> analyzedPoints out
                        = map (\<lambda>i. fst (task i (samples ! i))) [0..<maxPoints cfg]))
         \<and> (apiKey cfg \<noteq> [] \<and> streetName cfg \<noteq> [] \<and> cityName cfg \<noteq> []
               \<and> provinceState cfg \<noteq> []
             \<longrightarrow> length (analyzedPoints (handleAnalyzeClick cfg fetched responses sched ui0))
                   \<le> maxPoints cfg)"
proof -
  define pts where "pts = take (maxPoints cfg) samples"
  define task where "task = runTask (country cfg) (confidenceThreshold cfg) pts responses"
  define out where "out = analyzeSamples cfg responses sched samples ui"
  define final where "final = allSettled task sched (initialPool pts (concurrency cfg))"
  have cap: "capPoints (maxPoints cfg) samples = pts"
    using more by (simp add: capPoints_def pts_def)
  have len: "length pts = maxPoints cfg"
    using more by (simp add: pts_def)
  have nth: "pts ! i = samples ! i" if "i < maxPoints cfg" for i
    using that by (simp add: pts_def)
  have bound: "length (analyzedPoints out) \<le> maxPoints cfg"
    unfolding out_def using fresh by (rule analyzeSamples_bound)
  have out_eq: "pts \<noteq> [] \<Longrightarrow> analyzedPoints out = finalPoints (results final)
      \<and> isCancelledRef out = isCancelled final"
    by (simp add: out_def analyzeSamples_def cap Let_def final_def task_def)
  have out_empty: "pts = [] \<Longrightarrow> analyzedPoints out = []"
    using fresh by (simp add: out_def analyzeSamples_def cap)
  have order: "\<exists>is. sorted_wrt (<) is \<and> (\<forall>i \<in> set is. i < maxPoints cfg)
                   \<and> analyzedPoints out = map (\<lambda>i. fst (task i (samples ! i))) is"
  proof (cases "pts = []")
    case True
    with out_empty have "sorted_wrt (<) ([] :: nat list) \<and> (\<forall>i \<in> set []. i < maxPoints cfg)
        \<and> analyzedPoints out = map (\<lambda>i. fst (task i (samples ! i))) []"
      by simp
    then show ?thesis by blast
  next
    case False
    let ?is = "filter (\<lambda>i. results final ! i \<noteq> None) [0..<length pts]"
    have "valueInv task pts final" unfolding final_def by (rule allSettled_valueInv)
    then have "finalPoints (results final) = map (\<lambda>i. fst (task i (pts ! i))) ?is"
      by (rule finalPoints_of_valueInv)
    also have "\<dots> = map (\<lambda>i. fst (task i (samples ! i))) ?is"
      by (rule map_cong [OF refl]) (simp add: nth len)
    finally have "analyzedPoints out = map (\<lambda>i. fst (task i (samples ! i))) ?is"
      using out_eq [OF False] by simp
    moreover have "sorted_wrt (<) ?is" by (intro sorted_wrt_filter) simp
    moreover have "\<forall>i \<in> set ?is. i < maxPoints cfg" using len by simp
    ultimately show ?thesis by blast
  qed
  have complete: "0 < concurrency cfg \<and> \<not> isCancelledRef out
                  \<longrightarrow> analyzedPoints out
                        = map (\<lambda>i. fst (task i (samples ! i))) [0..<maxPoints cfg]"
  proof (cases "pts = []")
    case True
    with out_empty len show ?thesis by simp
  next
    case False
    show ?thesis
    proof
      assume a: "0 < concurrency cfg \<and> \<not> isCancelledRef out"
      with out_eq [OF False] have "\<not> isCancelled final" by simp
      with a have "results final = map (\<lambda>i. Some (fst (task i (pts ! i)))) [0..<length pts]"
        unfolding final_def by (intro allSettled_complete) simp_all
      then have "results final = map Some (map (\<lambda>i. fst (task i (pts ! i))) [0..<length pts])"
        by simp
      then have "finalPoints (results final) = map (\<lambda>i. fst (task i (pts ! i))) [0..<length pts]"
        by (simp only: finalPoints_all)
      also have "\<dots> = map (\<lambda>i. fst (task i (samples ! i))) [0..<maxPoints cfg]"
        unfolding len by (rule map_cong [OF refl]) (simp add: nth)
      finally show "analyzedPoints out
          = map (\<lambda>i. fst (task i (samples ! i))) [0..<maxPoints cfg]"
        using out_eq [OF False] by simp
    qed
  qed
  have handler: "apiKey cfg \<noteq> [] \<and> streetName cfg \<noteq> [] \<and> cityName cfg \<noteq> []
               \<and> provinceState cfg \<noteq> []
             \<longrightarrow> length (analyzedPoints (handleAnalyzeClick cfg fetched responses sched ui0))
                   \<le> maxPoints cfg"
    by (auto simp: handleAnalyzeClick_def Let_def catchError_points
        intro!: analyzeSamples_bound split: sum.splits)
  from cap len bound order complete handler show ?thesis
    unfolding Let_def pts_def [symmetric] task_def [symmetric] out_def [symmetric]
    by blast
qed

theorem C10_cap_on_points_witness:
  "capPoints 1 [\<lparr>lat = 43, lon = -79, speed = Some ''50'', wayId = Some 1\<rparr>,
                \<lparr>lat = 44, lon = -79, speed = Some ''50'', wayId = Some 1\<rparr>]
     = [\<lparr>lat = 43, lon = -79, speed = Some ''50'', wayId = Some 1\<rparr>]
   \<and> analyzedPoints
        (analyzeSamples
           \<lparr>apiKey = ''key'', streetName = ''Main Street'', cityName = ''Toronto'',
            provinceState = ''Ontario'', country = ''CAN'', reverseDirection = False,
            startOffset = 0, samplingDistance = 25, maxPoints = 1, concurrency = 1,
            confidenceThreshold = 3 / 10\<rparr>
           (\<lambda>i. \<lparr>imageResult = Inl ''Street View imagery not available at this location.'',
                  metadataResult = Inl ''Metadata status: ZERO_RESULTS. No imagery found.'',
                  analysis = Inr None\<rparr>)
           []
           [\<lparr>lat = 43, lon = -79, speed = Some ''50'', wayId = Some 1\<rparr>,
            \<lparr>lat = 44, lon = -79, speed = Some ''50'', wayId = Some 1\<rparr>]
           \<lparr>analyzedPoints = [], ui_error = None, isKeyInvalid = False, isLoading = True,
            isCancelledRef = False, ui_progress = 0\<rparr>)
     = [\<lparr>ap_id = (43, -79),
         location = \<lparr>lat = 43, lon = -79, speed = Some ''50'', wayId = Some 1\<rparr>,
         osmSpeed = Some ''50'', detectedSpeed = None, ap_confidence = None,
         isDiscrepancy = False, imageUrl = placeholderImage, heading = 0,
         ap_wayId = Some 1, imageDate = None\<rparr>]"
proof -
  let ?samples = "[\<lparr>lat = 43, lon = -79, speed = Some ''50'', wayId = Some 1\<rparr>,
                   \<lparr>lat = 44, lon = -79, speed = Some ''50'', wayId = Some (1::nat)\<rparr>]"
  let ?cfg = "\<lparr>apiKey = ''key'', streetName = ''Main Street'', cityName = ''Toronto'',
            provinceState = ''Ontario'', country = ''CAN'', reverseDirection = False,
            startOffset = 0, samplingDistance = 25, maxPoints = 1, concurrency = 1,
            confidenceThreshold = 3 / 10\<rparr>"
  let ?responses = "\<lambda>i::nat. \<lparr>imageResult = Inl ''Street View imagery not available at this location.'',
                  metadataResult = Inl ''Metadata status: ZERO_RESULTS. No imagery found.'',
                  analysis = Inr None\<rparr>"
  let ?ui = "\<lparr>analyzedPoints = [], ui_error = None, isKeyInvalid = False, isLoading = True,
            isCancelledRef = False, ui_progress = 0\<rparr>"
  let ?out = "analyzeSamples ?cfg ?responses [] ?samples ?ui"
  let ?task = "runTask (country ?cfg) (confidenceThreshold ?cfg) (take (maxPoints ?cfg) ?samples)
                 ?responses"
  have more: "maxPoints ?cfg < length ?samples" by simp
  have fresh: "analyzedPoints ?ui = []" by simp
  have nc: "0 < concurrency ?cfg \<and> \<not> isCancelledRef ?out"
    by (simp add: analyzeSamples_def capPoints_def allSettled_def drainSchedule_def pool_eval
        eval_nat_numeral)
  from C10_cap_on_points [OF more fresh, of ?responses "[]"]
  have cap: "capPoints (maxPoints ?cfg) ?samples = take (maxPoints ?cfg) ?samples"
    and all: "0 < concurrency ?cfg \<and> \<not> isCancelledRef ?out
        \<longrightarrow> analyzedPoints ?out = map (\<lambda>i. fst (?task i (?samples ! i))) [0..<maxPoints ?cfg]"
    unfolding Let_def by blast+
  from all nc have "analyzedPoints ?out = map (\<lambda>i. fst (?task i (?samples ! i))) [0..<maxPoints ?cfg]"
    by blast
  moreover have "map (\<lambda>i. fst (?task i (?samples ! i))) [0..<maxPoints ?cfg]
      = [\<lparr>ap_id = (43, -79),
         location = \<lparr>lat = 43, lon = -79, speed = Some ''50'', wayId = Some 1\<rparr>,
         osmSpeed = Some ''50'', detectedSpeed = None, ap_confidence = None,
         isDiscrepancy = False, imageUrl = placeholderImage, heading = 0,
         ap_wayId = Some 1, imageDate = None\<rparr>]"
    by (simp add: runTask_def failedPoint_def forwardHeading_def)
  ultimately show ?thesis using cap by simp
qed

text \<open>
  A fatal error does set the cancellation flag and ends its worker, and once the flag is set
  no event takes a task from the queue (\<open>fatal_step_cancels\<close>, \<open>cancelled_keeps_queue\<close>).
  But \<open>Promise.allSettled\<close> never rejects, so what a worker throws does not reach the
  \<open>catch\<close> block of the handler: a run that has sample points ends with no error set.
\<close>

lemma fatal_step_cancels:
  assumes "w < length (workers st)" "workers st ! w = Busy i p" "task i p = (np, Some err)"
  shows "isCancelled (workerStep task w st)
     \<and> workers (workerStep task w st) ! w = Rejected err
     \<and> queue (workerStep task w st) = queue st"
  using assms by (simp add: workerStep_def)

lemma handler_never_reports_worker_errors:
  assumes "apiKey cfg \<noteq> []" "streetName cfg \<noteq> []" "cityName cfg \<noteq> []"
    "provinceState cfg \<noteq> []" "fetched = Inr path" "path \<noteq> []"
  shows "ui_error (handleAnalyzeClick cfg fetched responses sched ui) = None
     \<and> \<not> isKeyInvalid (handleAnalyzeClick cfg fetched responses sched ui)"
  using assms by (simp add: handleAnalyzeClick_def analyzeSamples_def Let_def)

text \<open>
  C1 (evaluation of the code at a fatal error). One sample point; the image and its date
  arrive, and \<open>analyzeSpeedSign\<close> throws its error for an invalid key, which the worker
  classifies as fatal: it sets the cancellation flag and throws the error again "to be
  caught by the main handler". The handler ends with the flag set and the failed point
  stored, but with no error and the key not marked invalid, although its own \<open>catch\<close>
  block, given that error, would mark the key invalid and set the error message.
\<close>

theorem C1_fatal_error_swallowed:
  "ui_error
     (handleAnalyzeClick
        \<lparr>apiKey = ''key'', streetName = ''Main Street'', cityName = ''Toronto'',
         provinceState = ''Ontario'', country = ''CAN'', reverseDirection = False,
         startOffset = 0, samplingDistance = 25, maxPoints = 1, concurrency = 2,
         confidenceThreshold = 3 / 10\<rparr>
        (Inr [\<lparr>lat = 43, lon = -79, speed = Some ''50'', wayId = Some 5\<rparr>,
              \<lparr>lat = 44, lon = -79, speed = Some ''50'', wayId = Some 5\<rparr>])
        (\<lambda>i. \<lparr>imageResult = Inr ''AAAA'', metadataResult = Inr ''2021-06'',
               analysis = Inl ''The provided Google API key appears to be invalid or lacks permissions for the Vertex AI API.''\<rparr>)
        [Step 0, Step 1, Step 0] ui) = None
   \<and> isKeyInvalid
     (handleAnalyzeClick
        \<lparr>apiKey = ''key'', streetName = ''Main Street'', cityName = ''Toronto'',
         provinceState = ''Ontario'', country = ''CAN'', reverseDirection = False,
         startOffset = 0, samplingDistance = 25, maxPoints = 1, concurrency = 2,
         confidenceThreshold = 3 / 10\<rparr>
        (Inr [\<lparr>lat = 43, lon = -79, speed = Some ''50'', wayId = Some 5\<rparr>,
              \<lparr>lat = 44, lon = -79, speed = Some ''50'', wayId = Some 5\<rparr>])
        (\<lambda>i. \<lparr>imageResult = Inr ''AAAA'', metadataResult = Inr ''2021-06'',
               analysis = Inl ''The provided Google API key appears to be invalid or lacks permissions for the Vertex AI API.''\<rparr>)
        [Step 0, Step 1, Step 0] ui) = False
   \<and> isCancelledRef
     (handleAnalyzeClick
        \<lparr>apiKey = ''key'', streetName = ''Main Street'', cityName = ''Toronto'',
         provinceState = ''Ontario'', country = ''CAN'', reverseDirection = False,
         startOffset = 0, samplingDistance = 25, maxPoints = 1, concurrency = 2,
         confidenceThreshold = 3 / 10\<rparr>
        (Inr [\<lparr>lat = 43, lon = -79, speed = Some ''50'', wayId = Some 5\<rparr>,
              \<lparr>lat = 44, lon = -79, speed = Some ''50'', wayId = Some 5\<rparr>])
        (\<lambda>i. \<lparr>imageResult = Inr ''AAAA'', metadataResult = Inr ''2021-06'',
               analysis = Inl ''The provided Google API key appears to be invalid or lacks permissions for the Vertex AI API.''\<rparr>)
        [Step 0, Step 1, Step 0] ui) = True
   \<and> analyzedPoints
     (handleAnalyzeClick
        \<lparr>apiKey = ''key'', streetName = ''Main Street'', cityName = ''Toronto'',
         provinceState = ''Ontario'', country = ''CAN'', reverseDirection = False,
         startOffset = 0, samplingDistance = 25, maxPoints = 1, concurrency = 2,
         confidenceThreshold = 3 / 10\<rparr>
        (Inr [\<lparr>lat = 43, lon = -79, speed = Some ''50'', wayId = Some 5\<rparr>,
              \<lparr>lat = 44, lon = -79, speed = Some ''50'', wayId = Some 5\<rparr>])
        (\<lambda>i. \<lparr>imageResult = Inr ''AAAA'', metadataResult = Inr ''2021-06'',
               analysis = Inl ''The provided Google API key appears to be invalid or lacks permissions for the Vertex AI API.''\<rparr>)
        [Step 0, Step 1, Step 0] ui)
     = [\<lparr>ap_id = (43, -79),
         location = \<lparr>lat = 43, lon = -79, speed = Some ''50'', wayId = Some 5\<rparr>,
         osmSpeed = Some ''50'', detectedSpeed = None, ap_confidence = None,
         isDiscrepancy = False, imageUrl = ''data:image/jpeg;base64,AAAA'', heading = 0,
         ap_wayId = Some 5, imageDate = Some ''2021-06''\<rparr>]
   \<and> isFatal ''The provided Google API key appears to be invalid or lacks permissions for the Vertex AI API.''
   \<and> isKeyInvalid (catchError ''The provided Google API key appears to be invalid or lacks permissions for the Vertex AI API.'' ui)
   \<and> ui_error (catchError ''The provided Google API key appears to be invalid or lacks permissions for the Vertex AI API.'' ui)
       = Some keyErrorMessage"
proof -
  let ?p = "\<lparr>lat = 43, lon = -79, speed = Some ''50'', wayId = Some (5::nat)\<rparr>"
  let ?q = "\<lparr>lat = 44, lon = -79, speed = Some ''50'', wayId = Some (5::nat)\<rparr>"
  let ?msg = "''The provided Google API key appears to be invalid or lacks permissions for the Vertex AI API.''"
  let ?cfg = "\<lparr>apiKey = ''key'', streetName = ''Main Street'', cityName = ''Toronto'',
         provinceState = ''Ontario'', country = ''CAN'', reverseDirection = False,
         startOffset = 0, samplingDistance = 25, maxPoints = 1, concurrency = 2,
         confidenceThreshold = 3 / 10\<rparr>"
  let ?responses = "\<lambda>i::nat. \<lparr>imageResult = Inr ''AAAA'', metadataResult = Inr ''2021-06'',
               analysis = Inl ?msg\<rparr>"
  let ?np = "\<lparr>ap_id = (43, -79), location = ?p,
         osmSpeed = Some ''50'', detectedSpeed = None, ap_confidence = None,
         isDiscrepancy = False, imageUrl = ''data:image/jpeg;base64,AAAA'', heading = 0,
         ap_wayId = Some 5, imageDate = Some ''2021-06''\<rparr>"
  let ?ui1 = "ui\<lparr>isCancelledRef := False, isLoading := True, analyzedPoints := [],
                ui_error := None, isKeyInvalid := False, ui_progress := 0\<rparr>"
  let ?task = "runTask ''CAN'' (3 / 10) [?p] ?responses"
  have fatal: "isFatal ?msg"
    by (simp add: isFatal_def toLowerCase_def toLowerChar_def)
  have task0: "?task 0 ?p = (?np, Some ?msg)"
    by (simp add: runTask_def failedPoint_def forwardHeading_def fatal)
  have final: "allSettled ?task [Step 0, Step 1, Step 0] (initialPool [?p] 2)
      = \<lparr>queue = [], isCancelled = True, results = [Some ?np],
         workers = [Rejected ?msg, Done], progress = 1\<rparr>"
    by (simp add: allSettled_def drainSchedule_def runEvents_def applyEvent_def workerStep_def
        initialPool_def task0 numeral_2_eq_2)
  have "0 < haversineDistance (lat ?p) (lon ?p) (lat ?q) (lon ?q)"
    by (simp add: haversineDistance_pos_meridian)
  with getSamplePoints_first [of "25 / 1000" ?p ?q]
  obtain rest where samples: "getSamplePoints [?p, ?q] (25 / 1000) 0 = ?p # rest"
    by auto
  have cap: "capPoints 1 (?p # rest) = [?p]"
    by (cases rest) (simp_all add: capPoints_def)
  have run: "analyzeSamples ?cfg ?responses [Step 0, Step 1, Step 0] (?p # rest) ?ui1
      = ?ui1\<lparr>analyzedPoints := [?np], isCancelledRef := True, ui_progress := 1,
              isLoading := False\<rparr>"
    unfolding analyzeSamples_def Let_def
    by (simp only: settings.simps cap final pool.simps list.simps if_False)
      (simp add: finalPoints_def List.map_filter_def)
  have handler: "handleAnalyzeClick ?cfg (Inr [?p, ?q]) ?responses [Step 0, Step 1, Step 0] ui
      = ?ui1\<lparr>analyzedPoints := [?np], isCancelledRef := True, ui_progress := 1,
              isLoading := False\<rparr>"
    unfolding handleAnalyzeClick_def Let_def
    by (simp only: settings.simps samples run sum.case list.simps if_False rev.simps
        append.simps)
      simp
  show ?thesis
    unfolding handler using fatal by (simp add: catchError_def)
qed

end
